theory Spec2Isabelle
  imports Main "HOL-Library.AList"
begin

section \<open>The instance pool of \<open>lightrag/rag_manager.py\<close>\<close>

text \<open>
  \<open>RAGManager\<close> keeps one LightRAG engine per course in the dictionary
  \<open>rag_instances\<close>, a usage counter per course in \<open>course_access_count\<close>, and
  admits at most \<open>max_preloaded\<close> engines, evicting the least used one.

  Python dictionaries iterate in insertion order, and \<open>min\<close> over the items of
  \<open>course_access_count\<close> depends on that order, so a dictionary is an association
  list: \<open>d[k] = v\<close> is \<^const>\<open>AList.update\<close> (an existing key keeps its place, a new
  key goes to the end), \<open>del d[k]\<close> is \<^const>\<open>AList.delete\<close>, \<open>d[k]\<close> and
  \<open>d.get(k)\<close> read with \<^const>\<open>map_of\<close>.

  The model is sequential. Every body of \<open>initialize_course\<close> runs under
  \<open>_initialization_lock\<close>, an \<open>asyncio.Lock\<close>, which serves its waiters in arrival
  order, so the bodies started by one \<open>preload_courses\<close> run one after the other in
  the order of the list. Two operations that overlap in time (the lock-free part of
  \<open>get_rag\<close> against an eviction, \<open>cleanup\<close> against an admission) are outside the
  model.
\<close>

subsection \<open>Exceptions, values, the engine\<close>

datatype exn =
    ValueError
  | KeyError string
  | TypeError
  | EngineError string

text \<open>
  \<open>ValueError\<close> is what \<open>min\<close> raises on an empty sequence, \<open>KeyError\<close> what a
  dictionary raises on a missing key, \<open>TypeError\<close> what a call raises when a keyword
  argument names a parameter that already has a value, \<open>EngineError\<close> any exception
  that the LightRAG engine raises, with its message. All of them are subclasses of
  \<open>Exception\<close>, which is what the \<open>except\<close> clauses of the file catch.
\<close>

datatype pyval = PyNone | PyBool bool | PyInt int | PyStr string | PyObj nat

type_synonym kwargs = "(string \<times> pyval) list"

text \<open>
  The class \<open>LightRAG\<close> is imported, not defined, by the file. An engine is the value
  built from its keyword arguments. Whether the constructor, \<open>initialize_storages\<close> or
  \<open>finalize_storages\<close> raises is a parameter \<open>env\<close> of every operation: \<open>None\<close> is
  a normal return, \<open>Some e\<close> raises \<open>e\<close>. Each operation of a sequence has an \<open>env\<close>
  of its own, so an engine may fail at one time and not at another.
\<close>

datatype LightRAG = LightRAG (config: kwargs)

record env =
  LightRAG_raises :: "kwargs \<Rightarrow> exn option"
  initialize_storages_raises :: "LightRAG \<Rightarrow> exn option"
  finalize_storages_raises :: "LightRAG \<Rightarrow> exn option"

subsection \<open>What an operation does to the outside\<close>

datatype log_msg =
    CourseInitialized string
  | CoursesPreloaded nat
  | SwitchFailed string exn
  | CourseCleaned string
  | CleanFailed string exn

datatype event =
    Construct kwargs
  | InitializeStorages LightRAG
  | FinalizeStorages LightRAG
  | LogInfo log_msg
  | LogError log_msg

text \<open>
  The calls made on the engine class and the records handed to \<open>logger\<close>, in the order
  they happen. The messages of the source are (line 125) \<open>CourseInitialized\<close>,
  (line 141) \<open>CoursesPreloaded\<close>, (line 174) \<open>SwitchFailed\<close>, (line 182)
  \<open>CourseCleaned\<close> and (line 184) \<open>CleanFailed\<close>.
\<close>

subsection \<open>The manager\<close>

record RAGManager =
  rag_instances :: "(string \<times> LightRAG) list"
  max_preloaded :: int
  course_access_count :: "(string \<times> int) list"
  rag_kwargs :: kwargs
  trace :: "event list"

text \<open>
  The first four fields are the fields of the class. \<open>trace\<close> is not one: it collects
  the events of the operations run so far, and no operation reads it.
\<close>

definition emit :: "event \<Rightarrow> RAGManager \<Rightarrow> RAGManager" where
  "emit e s = s\<lparr>trace := trace s @ [e]\<rparr>"

definition init_params :: "string list" where
  "init_params =
     [''working_dir'', ''llm_model_func'', ''llm_model_name'', ''llm_model_max_async'',
      ''llm_model_max_token_size'', ''chunk_token_size'', ''chunk_overlap_token_size'',
      ''llm_model_kwargs'', ''embedding_func'', ''kv_storage'', ''graph_storage'',
      ''vector_storage'', ''doc_status_storage'', ''vector_db_storage_cls_kwargs'',
      ''enable_llm_cache_for_entity_extract'', ''embedding_cache_config'',
      ''namespace_prefix'', ''auto_manage_storages_states'', ''max_parallel_insert'',
      ''addon_params'']"

definition default_args :: "string \<Rightarrow> pyval" where
  "default_args k = (if k = ''auto_manage_storages_states'' then PyBool False else PyNone)"

text \<open>
  \<open>__init__\<close> (lines 61 to 88): \<open>args\<close> gives the argument passed for each of the
  twenty engine parameters, \<^const>\<open>default_args\<close> when none is passed; the default of
  \<open>max_preloaded\<close> is 10.
\<close>

definition RAGManager_init :: "int \<Rightarrow> (string \<Rightarrow> pyval) \<Rightarrow> RAGManager" where
  "RAGManager_init max_preloaded' args =
     \<lparr>rag_instances = [],
      max_preloaded = max_preloaded',
      course_access_count = [],
      rag_kwargs = map (\<lambda>k. (k, args k)) init_params,
      trace = []\<rparr>"

subsection \<open>Python built-ins used by the manager\<close>

text \<open>
  \<open>min(xs, key=f)\<close> raises \<open>ValueError\<close> on an empty sequence; otherwise it walks the
  sequence and replaces the current minimum only by an item whose key is strictly
  smaller, so the first of several minimal items is returned.
\<close>

fun min_from :: "('a \<Rightarrow> int) \<Rightarrow> 'a \<Rightarrow> 'a list \<Rightarrow> 'a" where
  "min_from key m [] = m"
| "min_from key m (x # xs) = min_from key (if key x < key m then x else m) xs"

definition py_min :: "('a \<Rightarrow> int) \<Rightarrow> 'a list \<Rightarrow> exn + 'a" where
  "py_min key xs = (case xs of [] \<Rightarrow> Inl ValueError | x # xs' \<Rightarrow> Inr (min_from key x xs'))"

text \<open>\<open>xs[:n]\<close>: a negative \<open>n\<close> counts from the end, and nothing is out of range.\<close>

definition py_slice_to :: "'a list \<Rightarrow> int \<Rightarrow> 'a list" where
  "py_slice_to xs n =
     (if 0 \<le> n then take (nat n) xs else take (length xs - nat (- n)) xs)"

text \<open>\<open>d.update(other)\<close>: the items of \<open>other\<close> are stored one by one, in order.\<close>

definition dict_update :: "('k \<times> 'v) list \<Rightarrow> ('k \<times> 'v) list \<Rightarrow> ('k \<times> 'v) list" where
  "dict_update d other = fold (\<lambda>(k, v) acc. AList.update k v acc) other d"

text \<open>
  \<open>asyncio.gather(*tasks)\<close> with the default \<open>return_exceptions=False\<close>. The tasks
  here are bodies under one lock, so they run one after the other, in the order of the
  list. When all of them have returned, the awaiting caller gets the list of results.
  When one raises, the caller gets that exception at once: the tasks after it are not
  cancelled, but they are still pending, and the caller goes on in the state the
  failing task has left. What a pending task does later is not part of this call; in a
  sequence of operations it is an \<open>initialize_course\<close> of its own.
\<close>

fun gather :: "('s \<Rightarrow> (exn + 'a) \<times> 's) list \<Rightarrow> 's \<Rightarrow> (exn + 'a list) \<times> 's" where
  "gather [] s = (Inr [], s)"
| "gather (t # ts) s =
     (case t s of
        (Inl e, s') \<Rightarrow> (Inl e, s')
      | (Inr v, s') \<Rightarrow>
          (case gather ts s' of
             (Inl e, s'') \<Rightarrow> (Inl e, s'')
           | (Inr vs, s'') \<Rightarrow> (Inr (v # vs), s'')))"

subsection \<open>\<open>initialize_course\<close>\<close>

text \<open>
  Lines 106 to 110, the eviction block. \<open>min\<close> raises on an empty counter dictionary,
  the lookup of the victim's engine raises \<open>KeyError\<close> when it has none, and
  \<open>finalize_storages\<close> is awaited with no handler around it: whatever it raises leaves
  the block before the two \<open>del\<close> statements. Both \<open>del\<close> find their key, which has
  just been read from the same dictionary.
\<close>

definition evict_least_used :: "env \<Rightarrow> RAGManager \<Rightarrow> (exn + unit) \<times> RAGManager" where
  "evict_least_used env s =
     (if int (length (rag_instances s)) \<ge> max_preloaded s then
        (case py_min snd (course_access_count s) of
           Inl e \<Rightarrow> (Inl e, s)
         | Inr item \<Rightarrow>
             (let least_used = fst item in
              case map_of (rag_instances s) least_used of
                None \<Rightarrow> (Inl (KeyError least_used), s)
              | Some rag \<Rightarrow>
                  (let s1 = emit (FinalizeStorages rag) s in
                   case finalize_storages_raises env rag of
                     Some e \<Rightarrow> (Inl e, s1)
                   | None \<Rightarrow>
                       (Inr (),
                        s1\<lparr>rag_instances := AList.delete least_used (rag_instances s1),
                           course_access_count :=
                             AList.delete least_used (course_access_count s1)\<rparr>))))
      else (Inr (), s))"

text \<open>Lines 112 to 117: the keyword arguments of the new engine.\<close>

definition course_kwargs :: "RAGManager \<Rightarrow> string \<Rightarrow> kwargs \<Rightarrow> kwargs" where
  "course_kwargs s course_id kwargs' =
     AList.update ''namespace_prefix'' (PyStr (''course_'' @ course_id))
       (dict_update (rag_kwargs s) kwargs')"

definition initialize_course ::
  "env \<Rightarrow> string \<Rightarrow> kwargs \<Rightarrow> RAGManager \<Rightarrow> (exn + LightRAG) \<times> RAGManager" where
  "initialize_course env course_id kwargs' s =
     (case map_of (rag_instances s) course_id of
        Some rag \<Rightarrow> (Inr rag, s)
      | None \<Rightarrow>
          (case evict_least_used env s of
             (Inl e, s1) \<Rightarrow> (Inl e, s1)
           | (Inr u, s1) \<Rightarrow>
               (let kw = course_kwargs s1 course_id kwargs';
                    s2 = emit (Construct kw) s1 in
                case LightRAG_raises env kw of
                  Some e \<Rightarrow> (Inl e, s2)
                | None \<Rightarrow>
                    (let rag = LightRAG kw;
                         s3 = emit (InitializeStorages rag) s2 in
                     case initialize_storages_raises env rag of
                       Some e \<Rightarrow> (Inl e, s3)
                     | None \<Rightarrow>
                         (Inr rag,
                          emit (LogInfo (CourseInitialized course_id))
                            (s3\<lparr>rag_instances :=
                                  AList.update course_id rag (rag_instances s3),
                                course_access_count :=
                                  AList.update course_id 0 (course_access_count s3)\<rparr>))))))"

subsection \<open>\<open>preload_courses\<close>, \<open>get_rag\<close>, \<open>switch_course\<close>, \<open>cleanup\<close>\<close>

text \<open>
  A call \<open>self.initialize_course(course_id, **kwargs)\<close> binds its arguments before
  the body runs: when \<open>kwargs\<close> names \<open>self\<close> or \<open>course_id\<close> again, Python raises
  \<open>TypeError\<close> and the body does not run.
\<close>

definition rebinds_parameter :: "kwargs \<Rightarrow> bool" where
  "rebinds_parameter kwargs' \<longleftrightarrow>
     ''self'' \<in> fst ` set kwargs' \<or> ''course_id'' \<in> fst ` set kwargs'"

definition call_initialize_course ::
  "env \<Rightarrow> string \<Rightarrow> kwargs \<Rightarrow> RAGManager \<Rightarrow> (exn + LightRAG) \<times> RAGManager" where
  "call_initialize_course env course_id kwargs' s =
     (if rebinds_parameter kwargs' then (Inl TypeError, s)
      else initialize_course env course_id kwargs' s)"

text \<open>
  The loop of \<open>preload_courses\<close> (lines 137 and 138) makes that call once for every
  retained course, before anything is awaited: with such keyword arguments and a course
  to preload, its first turn raises and no task is ever started. Otherwise the bodies
  are handed to \<open>gather\<close> (line 140), and line 141 is reached when \<open>gather\<close> returns.
\<close>

definition preload_courses ::
  "env \<Rightarrow> string list \<Rightarrow> kwargs \<Rightarrow> RAGManager \<Rightarrow> (exn + unit) \<times> RAGManager" where
  "preload_courses env course_ids kwargs' s =
     (let retained = py_slice_to course_ids (max_preloaded s) in
      if retained \<noteq> [] \<and> rebinds_parameter kwargs' then (Inl TypeError, s)
      else
        (let tasks = map (\<lambda>course_id. initialize_course env course_id kwargs') retained in
         case gather tasks s of
           (Inl e, s') \<Rightarrow> (Inl e, s')
         | (Inr rs, s') \<Rightarrow> (Inr (), emit (LogInfo (CoursesPreloaded (length tasks))) s')))"

definition get_rag :: "env \<Rightarrow> string \<Rightarrow> RAGManager \<Rightarrow> (exn + LightRAG) \<times> RAGManager" where
  "get_rag env course_id s =
     (case (if map_of (rag_instances s) course_id = None
            then (case initialize_course env course_id [] s of
                    (Inl e, s') \<Rightarrow> (Inl e, s')
                  | (Inr rag, s') \<Rightarrow> (Inr (), s'))
            else (Inr (), s)) of
        (Inl e, s1) \<Rightarrow> (Inl e, s1)
      | (Inr u, s1) \<Rightarrow>
          (let s2 = s1\<lparr>course_access_count :=
                        AList.update course_id
                          ((case map_of (course_access_count s1) course_id of
                              None \<Rightarrow> 0 | Some c \<Rightarrow> c) + 1)
                          (course_access_count s1)\<rparr> in
           case map_of (rag_instances s2) course_id of
             None \<Rightarrow> (Inl (KeyError course_id), s2)
           | Some rag \<Rightarrow> (Inr rag, s2)))"

definition switch_course :: "env \<Rightarrow> string \<Rightarrow> RAGManager \<Rightarrow> (exn + bool) \<times> RAGManager" where
  "switch_course env course_id s =
     (case get_rag env course_id s of
        (Inr rag, s') \<Rightarrow> (Inr True, s')
      | (Inl e, s') \<Rightarrow> (Inr False, emit (LogError (SwitchFailed course_id e)) s'))"

text \<open>
  The loop of \<open>cleanup\<close> (lines 179 to 184) over the items of \<open>rag_instances\<close>; the
  \<open>except Exception\<close> clause takes every exception of \<open>finalize_storages\<close>.
\<close>

fun cleanup_loop :: "env \<Rightarrow> (string \<times> LightRAG) list \<Rightarrow> RAGManager \<Rightarrow> RAGManager" where
  "cleanup_loop env [] s = s"
| "cleanup_loop env ((course_id, rag) # items) s =
     cleanup_loop env items
       (case finalize_storages_raises env rag of
          None \<Rightarrow> emit (LogInfo (CourseCleaned course_id)) (emit (FinalizeStorages rag) s)
        | Some e \<Rightarrow> emit (LogError (CleanFailed course_id e)) (emit (FinalizeStorages rag) s))"

definition cleanup :: "env \<Rightarrow> RAGManager \<Rightarrow> (exn + unit) \<times> RAGManager" where
  "cleanup env s =
     (let s1 = cleanup_loop env (rag_instances s) s in
      (Inr (), s1\<lparr>rag_instances := [], course_access_count := []\<rparr>))"

subsection \<open>Sequences of operations\<close>

datatype op =
    Initialize string kwargs
  | Preload "string list" kwargs
  | Get string
  | Switch string
  | Cleanup

text \<open>
  One step is an operation, as a call from outside, together with the behaviour of the
  engines while it runs; the state after it is the state it leaves, whether it returned
  or raised.
\<close>

fun step :: "env \<times> op \<Rightarrow> RAGManager \<Rightarrow> RAGManager" where
  "step (env, Initialize c kw) s = snd (call_initialize_course env c kw s)"
| "step (env, Preload cs kw) s = snd (preload_courses env cs kw s)"
| "step (env, Get c) s = snd (get_rag env c s)"
| "step (env, Switch c) s = snd (switch_course env c s)"
| "step (env, Cleanup) s = snd (cleanup env s)"

definition run :: "(env \<times> op) list \<Rightarrow> RAGManager \<Rightarrow> RAGManager" where
  "run ops s = fold step ops s"

definition keys :: "('k \<times> 'v) list \<Rightarrow> 'k list" where
  "keys d = map fst d"

text \<open>An environment in which no engine call raises.\<close>

definition healthy :: env where
  "healthy =
     \<lparr>LightRAG_raises = (\<lambda>kw. None),
      initialize_storages_raises = (\<lambda>rag. None),
      finalize_storages_raises = (\<lambda>rag. None)\<rparr>"

subsection \<open>Notions used to state the properties\<close>

text \<open>\<open>course_access_count.get(k, 0)\<close>: the counter of a course, 0 when it has none.\<close>

definition access_count :: "RAGManager \<Rightarrow> string \<Rightarrow> int" where
  "access_count s k = (case map_of (course_access_count s) k of None \<Rightarrow> 0 | Some c \<Rightarrow> c)"

text \<open>
  When a course was admitted last: the position in the trace, counted from 1, of the
  last record \<open>CourseInitialized\<close> of that course (line 125 writes it on every
  admission and nowhere else); 0 when there is none.
\<close>

definition admitted_at :: "event list \<Rightarrow> string \<Rightarrow> nat" where
  "admitted_at tr c =
     length (dropWhile (\<lambda>e. e \<noteq> LogInfo (CourseInitialized c)) (rev tr))"

text \<open>The two dictionaries have the same keys, in the same order, each once.\<close>

definition consistent :: "RAGManager \<Rightarrow> bool" where
  "consistent s \<longleftrightarrow>
     keys (rag_instances s) = keys (course_access_count s) \<and>
     distinct (keys (rag_instances s))"

text \<open>The counter dictionary lists the resident courses from the oldest admission on.\<close>

definition admission_ordered :: "RAGManager \<Rightarrow> bool" where
  "admission_ordered s \<longleftrightarrow>
     sorted_wrt (\<lambda>a b. admitted_at (trace s) a < admitted_at (trace s) b)
       (keys (course_access_count s)) \<and>
     list_all (\<lambda>k. 0 < admitted_at (trace s) k) (keys (course_access_count s))"


definition first_failure :: "(exn + 'a) list \<Rightarrow> nat" where
  "first_failure rs = length (takeWhile (\<lambda>r. \<not> isl r) rs)"



text \<open>The events of one admission that evicts nothing.\<close>

definition admission_events :: "RAGManager \<Rightarrow> kwargs \<Rightarrow> string \<Rightarrow> event list" where
  "admission_events s kwargs' c =
     [Construct (course_kwargs s c kwargs'),
      InitializeStorages (LightRAG (course_kwargs s c kwargs')),
      LogInfo (CourseInitialized c)]"

text \<open>The events of \<open>cleanup\<close> for one resident course.\<close>

definition cleanup_events :: "env \<Rightarrow> string \<times> LightRAG \<Rightarrow> event list" where
  "cleanup_events env item =
     [FinalizeStorages (snd item),
      (case finalize_storages_raises env (snd item) of
         None \<Rightarrow> LogInfo (CourseCleaned (fst item))
       | Some e \<Rightarrow> LogError (CleanFailed (fst item) e))]"

text \<open>A run of events in which no course is admitted.\<close>

definition quiet :: "event list \<Rightarrow> bool" where
  "quiet es \<longleftrightarrow> (\<forall>c. LogInfo (CourseInitialized c) \<notin> set es)"

text \<open>No more engines than \<open>max_preloaded\<close> are resident.\<close>

definition within_capacity :: "RAGManager \<Rightarrow> bool" where
  "within_capacity s \<longleftrightarrow> int (length (rag_instances s)) \<le> max_preloaded s"

text \<open>What every sequence of operations keeps true of the two dictionaries.\<close>

definition pool_invariant :: "RAGManager \<Rightarrow> bool" where
  "pool_invariant s \<longleftrightarrow> consistent s \<and> admission_ordered s"

text \<open>Environments for the examples: every finalization fails, or the construction of
  one course's engine fails.\<close>

definition failing_finalize :: "string \<Rightarrow> env" where
  "failing_finalize msg = healthy\<lparr>finalize_storages_raises := (\<lambda>rag. Some (EngineError msg))\<rparr>"

definition failing_construct :: "string \<Rightarrow> string \<Rightarrow> env" where
  "failing_construct c msg =
     healthy\<lparr>LightRAG_raises :=
       (\<lambda>kw. if map_of kw ''namespace_prefix'' = Some (PyStr (''course_'' @ c))
             then Some (EngineError msg) else None)\<rparr>"

text \<open>
  States for the examples: a manager of capacity 2 after \<open>get A\<close> and \<open>get B\<close>, the
  admission of \<open>C\<close> into it, and a manager of capacity 1 after \<open>get A\<close>.
\<close>

definition two_residents :: RAGManager where
  "two_residents =
     run [(healthy, Get ''A''), (healthy, Get ''B'')] (RAGManager_init 2 default_args)"

definition third_admission :: "(exn + LightRAG) \<times> RAGManager" where
  "third_admission = initialize_course healthy ''C'' [] two_residents"

definition one_resident :: RAGManager where
  "one_resident = run [(healthy, Get ''A'')] (RAGManager_init 1 default_args)"

section \<open>Properties\<close>

subsection \<open>\<open>min\<close>\<close>

lemma min_from_le_start: "key (min_from key m xs) \<le> key m"
proof (induction xs arbitrary: m)
  case Nil
  show ?case by simp
next
  case (Cons x xs)
  have "key (min_from key (if key x < key m then x else m) xs)
          \<le> key (if key x < key m then x else m)"
    by (rule Cons.IH)
  also have "\<dots> \<le> key m" by simp
  finally show ?case by simp
qed

lemma min_from_le: "x \<in> set (m # xs) \<Longrightarrow> key (min_from key m xs) \<le> key x"
proof (induction xs arbitrary: m)
  case Nil
  then show ?case by simp
next
  case (Cons y ys)
  let ?m' = "if key y < key m then y else m"
  from Cons.prems consider "x = m" | "x = y" | "x \<in> set ys" by auto
  then show ?case
  proof cases
    case 1
    then show ?thesis using min_from_le_start [of key m "y # ys"] by simp
  next
    case 2
    have "key (min_from key ?m' ys) \<le> key ?m'" by (rule min_from_le_start)
    also have "\<dots> \<le> key y" by simp
    finally show ?thesis using 2 by simp
  next
    case 3
    then have "x \<in> set (?m' # ys)" by simp
    from Cons.IH [OF this] show ?thesis by simp
  qed
qed

text \<open>The item returned is the first minimal one: everything before it is strictly larger.\<close>

lemma min_from_snoc:
  "min_from key m (xs @ [x]) =
     (if key x < key (min_from key m xs) then x else min_from key m xs)"
  by (induction xs arbitrary: m) simp_all

lemma first_minimum_snoc:
  fixes key :: "'a \<Rightarrow> int"
  assumes "ys = pre @ r # post"
      and "\<forall>y \<in> set pre. key r < key y"
      and "\<forall>y \<in> set ys. key r \<le> key y"
  shows "\<exists>pre' post'. ys @ [x] = pre' @ (if key x < key r then x else r) # post' \<and>
           (\<forall>y \<in> set pre'. key (if key x < key r then x else r) < key y)"
proof (cases "key x < key r")
  case True
  have "ys @ [x] = ys @ x # []" by simp
  moreover have "\<forall>y \<in> set ys. key x < key y" using True assms(3) by fastforce
  ultimately show ?thesis using True by auto
next
  case False
  have "ys @ [x] = pre @ r # (post @ [x])" using assms(1) by simp
  then show ?thesis using False assms(2) by auto
qed

lemma min_from_first:
  "\<exists>pre post. m # xs = pre @ min_from key m xs # post \<and>
     (\<forall>x \<in> set pre. key (min_from key m xs) < key x)"
proof (induction xs rule: rev_induct)
  case Nil
  have "[m] = [] @ m # []" by simp
  then show ?case by force
next
  case (snoc x xs)
  define r where "r = min_from key m xs"
  from snoc obtain pre post where
    split: "m # xs = pre @ r # post" and before: "\<forall>y \<in> set pre. key r < key y"
    unfolding r_def by blast
  have all: "\<forall>y \<in> set (m # xs). key r \<le> key y"
    unfolding r_def using min_from_le [of _ m xs key] by blast
  have "\<exists>pre' post'. (m # xs) @ [x] = pre' @ (if key x < key r then x else r) # post' \<and>
           (\<forall>y \<in> set pre'. key (if key x < key r then x else r) < key y)"
    by (rule first_minimum_snoc [OF split before all])
  then show ?case unfolding min_from_snoc r_def by simp
qed


lemma py_min_Inr:
  assumes "xs \<noteq> []"
  obtains r pre post where "py_min key xs = Inr r" "xs = pre @ r # post"
    "\<forall>x \<in> set pre. key r < key x" "\<forall>x \<in> set xs. key r \<le> key x"
proof -
  from assms obtain m ms where xs: "xs = m # ms" by (cases xs) auto
  obtain pre post where "m # ms = pre @ min_from key m ms # post"
    "\<forall>x \<in> set pre. key (min_from key m ms) < key x"
    using min_from_first [of m ms key] by blast
  moreover have "py_min key xs = Inr (min_from key m ms)" by (simp add: xs py_min_def)
  moreover have "\<forall>x \<in> set xs. key (min_from key m ms) \<le> key x"
    unfolding xs using min_from_le [of _ m ms key] by blast
  ultimately show thesis using that xs by blast
qed

subsection \<open>Dictionaries\<close>

lemma keys_update_absent: "k \<notin> set (keys d) \<Longrightarrow> AList.update k v d = d @ [(k, v)]"
  by (induction d) (auto simp: keys_def)

lemma keys_update_present: "k \<in> set (keys d) \<Longrightarrow> keys (AList.update k v d) = keys d"
  by (simp add: keys_def update_keys)

lemma keys_delete: "keys (AList.delete k d) = removeAll k (keys d)"
  by (simp add: keys_def delete_keys)

lemma map_of_None_keys: "map_of d k = None \<longleftrightarrow> k \<notin> set (keys d)"
  by (simp add: keys_def map_of_eq_None_iff)

lemma length_keys: "length (keys d) = length d"
  by (simp add: keys_def)

lemma length_removeAll_distinct:
  "distinct ks \<Longrightarrow> k \<in> set ks \<Longrightarrow> Suc (length (removeAll k ks)) = length ks"
  by (induction ks) auto

lemma length_delete_present:
  "distinct (keys d) \<Longrightarrow> k \<in> set (keys d) \<Longrightarrow> Suc (length (AList.delete k d)) = length d"
  using length_removeAll_distinct [of "keys d" k] keys_delete [of k d] length_keys
  by metis

subsection \<open>The trace\<close>

lemma emit_fields [simp]:
  "rag_instances (emit e s) = rag_instances s"
  "course_access_count (emit e s) = course_access_count s"
  "max_preloaded (emit e s) = max_preloaded s"
  "rag_kwargs (emit e s) = rag_kwargs s"
  "trace (emit e s) = trace s @ [e]"
  by (simp_all add: emit_def)

lemma admitted_at_le: "admitted_at tr c \<le> length tr"
  unfolding admitted_at_def using length_dropWhile_le [of _ "rev tr"] by simp

lemma admitted_at_snoc:
  "admitted_at (tr @ [e]) c =
     (if e = LogInfo (CourseInitialized c) then Suc (length tr) else admitted_at tr c)"
  by (simp add: admitted_at_def)

lemma admitted_at_quiet: "quiet es \<Longrightarrow> admitted_at (tr @ es) c = admitted_at tr c"
proof (induction es rule: rev_induct)
  case Nil
  show ?case by simp
next
  case (snoc e es)
  then have "quiet es" and "e \<noteq> LogInfo (CourseInitialized c)"
    by (auto simp: quiet_def)
  with snoc.IH show ?case
    using admitted_at_snoc [of "tr @ es" e c] by simp
qed

subsection \<open>The eviction block\<close>

lemma evict_room:
  "int (length (rag_instances s)) < max_preloaded s \<Longrightarrow> evict_least_used env s = (Inr (), s)"
  by (simp add: evict_least_used_def)

lemma evict_empty:
  "max_preloaded s \<le> int (length (rag_instances s)) \<Longrightarrow> course_access_count s = []
     \<Longrightarrow> evict_least_used env s = (Inl ValueError, s)"
  by (simp add: evict_least_used_def py_min_def)

lemma evict_cases:
  assumes "consistent s"
  obtains
    (room) "int (length (rag_instances s)) < max_preloaded s"
      "evict_least_used env s = (Inr (), s)"
  | (empty) "max_preloaded s \<le> int (length (rag_instances s))"
      "rag_instances s = []" "course_access_count s = []"
      "evict_least_used env s = (Inl ValueError, s)"
  | (stuck) v n rag e pre post where
      "max_preloaded s \<le> int (length (rag_instances s))"
      "course_access_count s = pre @ (v, n) # post"
      "\<forall>x \<in> set pre. n < snd x" "\<forall>x \<in> set (course_access_count s). n \<le> snd x"
      "map_of (rag_instances s) v = Some rag"
      "finalize_storages_raises env rag = Some e"
      "evict_least_used env s = (Inl e, emit (FinalizeStorages rag) s)"
  | (evicted) v n rag pre post where
      "max_preloaded s \<le> int (length (rag_instances s))"
      "course_access_count s = pre @ (v, n) # post"
      "\<forall>x \<in> set pre. n < snd x" "\<forall>x \<in> set (course_access_count s). n \<le> snd x"
      "map_of (rag_instances s) v = Some rag"
      "finalize_storages_raises env rag = None"
      "evict_least_used env s =
         (Inr (), (emit (FinalizeStorages rag) s)
            \<lparr>rag_instances := AList.delete v (rag_instances s),
             course_access_count := AList.delete v (course_access_count s)\<rparr>)"
proof (cases "int (length (rag_instances s)) < max_preloaded s")
  case True
  then show thesis using room evict_room by blast
next
  case False
  then have full: "max_preloaded s \<le> int (length (rag_instances s))" by simp
  show thesis
  proof (cases "course_access_count s = []")
    case True
    moreover from True assms have "rag_instances s = []"
      by (simp add: consistent_def keys_def)
    ultimately show thesis using empty full evict_empty by blast
  next
    case False
    then obtain r pre post where
      m: "py_min snd (course_access_count s) = Inr r" and
      sp: "course_access_count s = pre @ r # post" and
      before: "\<forall>x \<in> set pre. snd r < snd x" and
      least: "\<forall>x \<in> set (course_access_count s). snd r \<le> snd x"
      by (rule py_min_Inr)
    obtain v n where r: "r = (v, n)" by (cases r)
    from sp r have "v \<in> set (keys (course_access_count s))"
      by (simp add: keys_def)
    with assms have "v \<in> set (keys (rag_instances s))" by (simp add: consistent_def)
    then obtain rag where rag: "map_of (rag_instances s) v = Some rag"
      using map_of_None_keys [of "rag_instances s" v] by auto
    show thesis
    proof (cases "finalize_storages_raises env rag")
      case None
      with full m rag r have
        "evict_least_used env s =
           (Inr (), (emit (FinalizeStorages rag) s)
              \<lparr>rag_instances := AList.delete v (rag_instances s),
               course_access_count := AList.delete v (course_access_count s)\<rparr>)"
        by (simp add: evict_least_used_def)
      with evicted full sp before least rag None r show thesis by simp
    next
      case (Some e)
      with full m rag r have
        "evict_least_used env s = (Inl e, emit (FinalizeStorages rag) s)"
        by (simp add: evict_least_used_def)
      with stuck full sp before least rag Some r show thesis by simp
    qed
  qed
qed


lemma evict_frame [simp]:
  "max_preloaded (snd (evict_least_used env s)) = max_preloaded s"
  "rag_kwargs (snd (evict_least_used env s)) = rag_kwargs s"
  by (simp_all add: evict_least_used_def Let_def split: sum.splits option.splits)

lemma evict_Inl_pool:
  "evict_least_used env s = (Inl e, s1) \<Longrightarrow>
     rag_instances s1 = rag_instances s \<and> course_access_count s1 = course_access_count s"
  by (auto simp: evict_least_used_def Let_def split: sum.splits option.splits if_splits)

lemma evict_absent:
  assumes "c \<notin> set (keys (rag_instances s))"
  shows "c \<notin> set (keys (rag_instances (snd (evict_least_used env s))))"
  using assms
  by (auto simp: evict_least_used_def Let_def keys_delete split: sum.splits option.splits)

lemma consistent_emit [simp]: "consistent (emit e s) = consistent s"
  by (simp add: consistent_def)

lemma evict_consistent:
  assumes "consistent s"
  shows "consistent (snd (evict_least_used env s))"
  using assms
proof (cases rule: evict_cases [where env = env])
  case (evicted v n rag pre post)
  from assms have "distinct (removeAll v (keys (course_access_count s)))"
    by (metis consistent_def distinct_removeAll)
  with assms show ?thesis
    by (simp add: evicted(7) consistent_def keys_delete)
qed (use assms in simp_all)

lemma evict_trace:
  "\<exists>es. trace (snd (evict_least_used env s)) = trace s @ es \<and> quiet es"
proof -
  have "trace (snd (evict_least_used env s)) = trace s \<or>
        (\<exists>rag. trace (snd (evict_least_used env s)) = trace s @ [FinalizeStorages rag])"
    by (auto simp: evict_least_used_def Let_def split: sum.splits option.splits)
  then show ?thesis
  proof
    assume "trace (snd (evict_least_used env s)) = trace s"
    then have "trace (snd (evict_least_used env s)) = trace s @ [] \<and> quiet []"
      by (simp add: quiet_def)
    then show ?thesis by blast
  next
    assume "\<exists>rag. trace (snd (evict_least_used env s)) = trace s @ [FinalizeStorages rag]"
    then obtain rag where
      "trace (snd (evict_least_used env s)) = trace s @ [FinalizeStorages rag]" by blast
    moreover have "quiet [FinalizeStorages rag]" by (simp add: quiet_def)
    ultimately show ?thesis by blast
  qed
qed

lemma evict_keys:
  "\<exists>P. keys (course_access_count (snd (evict_least_used env s))) =
         filter P (keys (course_access_count s))"
proof -
  have "keys (course_access_count (snd (evict_least_used env s))) =
          keys (course_access_count s) \<or>
        (\<exists>v. keys (course_access_count (snd (evict_least_used env s))) =
          removeAll v (keys (course_access_count s)))"
    by (auto simp: evict_least_used_def Let_def keys_delete split: sum.splits option.splits)
  then show ?thesis
  proof
    assume "keys (course_access_count (snd (evict_least_used env s))) =
              keys (course_access_count s)"
    then have "keys (course_access_count (snd (evict_least_used env s))) =
              filter (\<lambda>k. True) (keys (course_access_count s))" by simp
    then show ?thesis by blast
  next
    assume "\<exists>v. keys (course_access_count (snd (evict_least_used env s))) =
              removeAll v (keys (course_access_count s))"
    then show ?thesis unfolding removeAll_filter_not_eq by blast
  qed
qed

subsection \<open>Admission order\<close>

lemma admission_ordered_filter:
  assumes "admission_ordered s"
      and "trace s' = trace s @ es" and "quiet es"
      and "keys (course_access_count s') = filter P (keys (course_access_count s))"
  shows "admission_ordered s'"
proof -
  have same: "admitted_at (trace s') k = admitted_at (trace s) k" for k
    using assms(2,3) by (simp add: admitted_at_quiet)
  from assms(1) show ?thesis
    unfolding admission_ordered_def assms(4) same
    by (simp add: sorted_wrt_filter list_all_iff)
qed

lemma admission_ordered_admit:
  assumes "admission_ordered s"
      and "trace s' = trace s @ es @ [LogInfo (CourseInitialized c)]" and "quiet es"
      and "c \<notin> set (keys (course_access_count s))"
      and "keys (course_access_count s') = keys (course_access_count s) @ [c]"
  shows "admission_ordered s'"
proof -
  have new: "admitted_at (trace s') c = Suc (length (trace s @ es))"
    using admitted_at_snoc [of "trace s @ es" "LogInfo (CourseInitialized c)" c]
    by (simp add: assms(2))
  have old: "admitted_at (trace s') k = admitted_at (trace s) k"
    if "k \<in> set (keys (course_access_count s))" for k
  proof -
    from that assms(4) have "k \<noteq> c" by blast
    then have "admitted_at (trace s') k = admitted_at (trace s @ es) k"
      using admitted_at_snoc [of "trace s @ es" "LogInfo (CourseInitialized c)" k]
      by (simp add: assms(2))
    with assms(3) show ?thesis by (simp add: admitted_at_quiet)
  qed
  have before: "admitted_at (trace s') k < admitted_at (trace s') c"
    if "k \<in> set (keys (course_access_count s))" for k
    using old [OF that] new admitted_at_le [of "trace s" k] by simp
  have "sorted_wrt (\<lambda>a b. admitted_at (trace s') a < admitted_at (trace s') b)
          (keys (course_access_count s))"
    using assms(1) old unfolding admission_ordered_def
    by (metis (no_types, lifting) sorted_wrt_mono_rel)
  moreover have "list_all (\<lambda>k. 0 < admitted_at (trace s') k) (keys (course_access_count s))"
    using assms(1) old unfolding admission_ordered_def by (simp add: list_all_iff)
  ultimately show ?thesis
    unfolding admission_ordered_def assms(5)
    using before new by (simp add: sorted_wrt_append)
qed


subsection \<open>\<open>initialize_course\<close>\<close>

lemma initialize_cases:
  obtains
    (resident) rag where "map_of (rag_instances s) c = Some rag"
      "initialize_course env c kw s = (Inr rag, s)"
  | (evict_failed) e s1 where "map_of (rag_instances s) c = None"
      "evict_least_used env s = (Inl e, s1)"
      "initialize_course env c kw s = (Inl e, s1)"
  | (construct_failed) s1 e where "map_of (rag_instances s) c = None"
      "evict_least_used env s = (Inr (), s1)"
      "LightRAG_raises env (course_kwargs s1 c kw) = Some e"
      "initialize_course env c kw s = (Inl e, emit (Construct (course_kwargs s1 c kw)) s1)"
  | (initialize_failed) s1 e where "map_of (rag_instances s) c = None"
      "evict_least_used env s = (Inr (), s1)"
      "LightRAG_raises env (course_kwargs s1 c kw) = None"
      "initialize_storages_raises env (LightRAG (course_kwargs s1 c kw)) = Some e"
      "initialize_course env c kw s =
         (Inl e, emit (InitializeStorages (LightRAG (course_kwargs s1 c kw)))
                   (emit (Construct (course_kwargs s1 c kw)) s1))"
  | (admitted) s1 where "map_of (rag_instances s) c = None"
      "evict_least_used env s = (Inr (), s1)"
      "LightRAG_raises env (course_kwargs s1 c kw) = None"
      "initialize_storages_raises env (LightRAG (course_kwargs s1 c kw)) = None"
      "initialize_course env c kw s =
         (Inr (LightRAG (course_kwargs s1 c kw)),
          emit (LogInfo (CourseInitialized c))
            ((emit (InitializeStorages (LightRAG (course_kwargs s1 c kw)))
               (emit (Construct (course_kwargs s1 c kw)) s1))
             \<lparr>rag_instances :=
                AList.update c (LightRAG (course_kwargs s1 c kw)) (rag_instances s1),
              course_access_count := AList.update c 0 (course_access_count s1)\<rparr>))"
proof (cases "map_of (rag_instances s) c")
  case (Some rag)
  then show thesis using resident by (simp add: initialize_course_def Let_def)
next
  case None
  obtain r s1 where ev: "evict_least_used env s = (r, s1)" by (cases "evict_least_used env s")
  show thesis
  proof (cases r)
    case (Inl e)
    with None ev show thesis using evict_failed by (simp add: initialize_course_def Let_def)
  next
    case (Inr u)
    with ev have ev': "evict_least_used env s = (Inr (), s1)" by simp
    show thesis
    proof (cases "LightRAG_raises env (course_kwargs s1 c kw)")
      case (Some e)
      with None ev' show thesis using construct_failed
        by (simp add: initialize_course_def Let_def)
    next
      case no_raise: None
      show thesis
      proof (cases "initialize_storages_raises env (LightRAG (course_kwargs s1 c kw))")
        case (Some e)
        with None ev' no_raise show thesis using initialize_failed
          by (simp add: initialize_course_def Let_def)
      next
        case ok: None
        with None ev' no_raise show thesis using admitted
          by (simp add: initialize_course_def Let_def)
      qed
    qed
  qed
qed

lemma initialize_frame [simp]:
  "max_preloaded (snd (initialize_course env c kw s)) = max_preloaded s"
  "rag_kwargs (snd (initialize_course env c kw s)) = rag_kwargs s"
proof -
  have ev: "max_preloaded s1 = max_preloaded s \<and> rag_kwargs s1 = rag_kwargs s"
    if "evict_least_used env s = (r, s1)" for r s1
    using evict_frame [of env s] that by simp
  show "max_preloaded (snd (initialize_course env c kw s)) = max_preloaded s"
    by (cases rule: initialize_cases [of s c env kw]) (use ev in auto)
  show "rag_kwargs (snd (initialize_course env c kw s)) = rag_kwargs s"
    by (cases rule: initialize_cases [of s c env kw]) (use ev in auto)
qed

lemma consistent_keys:
  "consistent s \<Longrightarrow> keys (rag_instances s) = keys (course_access_count s)"
  by (simp add: consistent_def)

lemma consistent_distinct: "consistent s \<Longrightarrow> distinct (keys (course_access_count s))"
  by (auto simp: consistent_def)

lemma consistent_admit:
  assumes "consistent s1" and "c \<notin> set (keys (rag_instances s1))"
      and "rag_instances s' = AList.update c rag (rag_instances s1)"
      and "course_access_count s' = AList.update c n (course_access_count s1)"
  shows "consistent s'"
    and "keys (course_access_count s') = keys (course_access_count s1) @ [c]"
proof -
  from assms(1,2) have absent: "c \<notin> set (keys (course_access_count s1))"
    by (simp add: consistent_keys)
  have ri: "keys (rag_instances s') = keys (rag_instances s1) @ [c]"
    using assms(2,3) by (simp add: keys_update_absent) (simp add: keys_def)
  show cac: "keys (course_access_count s') = keys (course_access_count s1) @ [c]"
    using absent assms(4) by (simp add: keys_update_absent) (simp add: keys_def)
  from assms(1) have "keys (rag_instances s1) = keys (course_access_count s1)"
    and "distinct (keys (course_access_count s1))"
    by (simp_all add: consistent_keys consistent_distinct)
  with ri cac absent show "consistent s'" by (simp add: consistent_def)
qed

lemma initialize_consistent:
  assumes "consistent s"
  shows "consistent (snd (initialize_course env c kw s))"
proof -
  have ev: "consistent s1" if "evict_least_used env s = (r, s1)" for r s1
    using evict_consistent [OF assms, of env] that by simp
  have ab: "c \<notin> set (keys (rag_instances s1))"
    if "map_of (rag_instances s) c = None" "evict_least_used env s = (r, s1)" for r s1
    using evict_absent [of c s env] that by (simp add: map_of_None_keys)
  show ?thesis
  proof (cases rule: initialize_cases [of s c env kw])
    case (admitted s1)
    show ?thesis unfolding admitted(5) snd_conv
      by (rule consistent_admit(1) [OF ev [OF admitted(2)] ab [OF admitted(1,2)]]) simp_all
  qed (use assms ev in auto)
qed

lemma initialize_within_capacity:
  assumes "consistent s" and "within_capacity s"
  shows "within_capacity (snd (initialize_course env c kw s))"
proof (cases rule: initialize_cases [of s c env kw])
  case (resident rag)
  with assms show ?thesis by simp
next
  case (evict_failed e s1)
  with assms evict_Inl_pool [OF evict_failed(2)] evict_frame(1) [of env s]
  show ?thesis by (simp add: within_capacity_def)
next
  case (construct_failed s1 e)
  have "length (rag_instances s1) \<le> length (rag_instances s)"
    using assms(1)
    by (cases rule: evict_cases [where env = env])
      (use construct_failed(2) in \<open>auto simp: length_delete_le\<close>)
  with assms evict_frame(1) [of env s] construct_failed show ?thesis
    by (simp add: within_capacity_def)
next
  case (initialize_failed s1 e)
  have "length (rag_instances s1) \<le> length (rag_instances s)"
    using assms(1)
    by (cases rule: evict_cases [where env = env])
      (use initialize_failed(2) in \<open>auto simp: length_delete_le\<close>)
  with assms evict_frame(1) [of env s] initialize_failed show ?thesis
    by (simp add: within_capacity_def)
next
  case (admitted s1)
  have absent: "c \<notin> set (keys (rag_instances s1))"
    using evict_absent [of c s env] admitted(1,2) by (simp add: map_of_None_keys)
  have room: "int (length (rag_instances s1)) < max_preloaded s"
    using assms(1)
  proof (cases rule: evict_cases [where env = env])
    case room
    with admitted(2) show ?thesis by simp
  next
    case (evicted v n rag pre post)
    from evicted(5) have "v \<in> set (keys (rag_instances s))"
      using map_of_None_keys [of "rag_instances s" v] by simp
    moreover from assms(1) have "distinct (keys (rag_instances s))"
      by (auto simp: consistent_def)
    ultimately have "Suc (length (AList.delete v (rag_instances s))) = length (rag_instances s)"
      by (rule length_delete_present [rotated])
    with evicted(7) admitted(2) assms(2) show ?thesis
      by (auto simp: within_capacity_def)
  qed (use admitted(2) in simp_all)
  moreover have "max_preloaded s1 = max_preloaded s"
    using evict_frame(1) [of env s] admitted(2) by simp
  ultimately show ?thesis using absent
    by (simp add: admitted(5) within_capacity_def keys_update_absent)
qed


lemma initialize_Inr:
  assumes "initialize_course env c kw s = (Inr rag, s')"
  shows "map_of (rag_instances s') c = Some rag"
  using assms
  by (cases rule: initialize_cases [of s c env kw]) (auto simp: update_conv')

lemma initialize_Inl:
  assumes "initialize_course env c kw s = (Inl e, s')"
  shows "map_of (rag_instances s) c = None"
    and "c \<notin> set (keys (rag_instances s'))"
    and "c \<notin> set (keys (course_access_count s)) \<Longrightarrow> c \<notin> set (keys (course_access_count s'))"
proof -
  show none: "map_of (rag_instances s) c = None"
    using assms by (cases rule: initialize_cases [of s c env kw]) auto
  then have absent: "c \<notin> set (keys (rag_instances s))" by (simp add: map_of_None_keys)
  have ev: "c \<notin> set (keys (rag_instances s1))" if "evict_least_used env s = (r, s1)" for r s1
    using evict_absent [OF absent, of env] that by simp
  show "c \<notin> set (keys (rag_instances s'))"
    using assms by (cases rule: initialize_cases [of s c env kw]) (use ev in auto)
  assume cac: "c \<notin> set (keys (course_access_count s))"
  have ev': "c \<notin> set (keys (course_access_count s1))"
    if "evict_least_used env s = (r, s1)" for r s1
  proof -
    obtain P where "keys (course_access_count (snd (evict_least_used env s))) =
        filter P (keys (course_access_count s))"
      using evict_keys [of env s] by blast
    with that cac show ?thesis by simp
  qed
  show "c \<notin> set (keys (course_access_count s'))"
    using assms by (cases rule: initialize_cases [of s c env kw]) (use ev' in auto)
qed

lemma initialize_admission_ordered:
  assumes "consistent s" and "admission_ordered s"
  shows "admission_ordered (snd (initialize_course env c kw s))"
proof -
  obtain es P where
    tr: "trace (snd (evict_least_used env s)) = trace s @ es" and q: "quiet es" and
    ks: "keys (course_access_count (snd (evict_least_used env s))) =
           filter P (keys (course_access_count s))"
    using evict_trace [of env s] evict_keys [of env s] by blast
  have ev: "admission_ordered (snd (evict_least_used env s))"
    by (rule admission_ordered_filter [OF assms(2) tr q ks])
  have con: "consistent (snd (evict_least_used env s))"
    by (rule evict_consistent [OF assms(1)])
  show ?thesis
  proof (cases rule: initialize_cases [of s c env kw])
    case (resident rag)
    with assms show ?thesis by simp
  next
    case (evict_failed e s1)
    with ev show ?thesis by simp
  next
    case (construct_failed s1 e)
    have s1: "admission_ordered s1" using ev construct_failed(2) by simp
    show ?thesis
      unfolding construct_failed(4) snd_conv
      by (rule admission_ordered_filter
            [OF s1, of _ "[Construct (course_kwargs s1 c kw)]" "\<lambda>k. True"])
        (simp_all add: quiet_def)
  next
    case (initialize_failed s1 e)
    let ?es = "[Construct (course_kwargs s1 c kw),
                InitializeStorages (LightRAG (course_kwargs s1 c kw))]"
    have s1: "admission_ordered s1" using ev initialize_failed(2) by simp
    show ?thesis
      unfolding initialize_failed(5) snd_conv
      by (rule admission_ordered_filter [OF s1, of _ ?es "\<lambda>k. True"])
        (simp_all add: quiet_def)
  next
    case (admitted s1)
    let ?es = "[Construct (course_kwargs s1 c kw),
                InitializeStorages (LightRAG (course_kwargs s1 c kw))]"
    have q: "quiet ?es" by (simp add: quiet_def)
    have s1: "admission_ordered s1" "consistent s1" using ev con admitted(2) by simp_all
    have absent: "c \<notin> set (keys (rag_instances s1))"
      using evict_absent [of c s env] admitted(1,2) by (simp add: map_of_None_keys)
    then have absent': "c \<notin> set (keys (course_access_count s1))"
      using s1(2) by (simp add: consistent_keys)
    show ?thesis
      unfolding admitted(5) snd_conv
      by (rule admission_ordered_admit [OF s1(1) _ q absent'])
        (use absent' in \<open>simp_all add: keys_update_absent keys_def\<close>)
  qed
qed

subsection \<open>\<open>get_rag\<close>\<close>

lemma get_rag_cases:
  obtains
    (hit) rag where "map_of (rag_instances s) c = Some rag"
      "get_rag env c s =
         (Inr rag, s\<lparr>course_access_count :=
                       AList.update c (access_count s c + 1) (course_access_count s)\<rparr>)"
  | (failed) e s1 where "map_of (rag_instances s) c = None"
      "initialize_course env c [] s = (Inl e, s1)"
      "get_rag env c s = (Inl e, s1)"
  | (admitted) rag s1 where "map_of (rag_instances s) c = None"
      "initialize_course env c [] s = (Inr rag, s1)"
      "get_rag env c s =
         (Inr rag, s1\<lparr>course_access_count :=
                        AList.update c (access_count s1 c + 1) (course_access_count s1)\<rparr>)"
proof (cases "map_of (rag_instances s) c")
  case (Some rag)
  then show thesis using hit by (simp add: get_rag_def access_count_def)
next
  case None
  obtain r s1 where i: "initialize_course env c [] s = (r, s1)"
    by (cases "initialize_course env c [] s")
  show thesis
  proof (cases r)
    case (Inl e)
    with None i show thesis using failed by (simp add: get_rag_def)
  next
    case (Inr rag)
    with i have i': "initialize_course env c [] s = (Inr rag, s1)" by simp
    from initialize_Inr [OF i'] None i' show thesis using admitted
      by (simp add: get_rag_def access_count_def)
  qed
qed


lemma admission_ordered_emit:
  "quiet [e] \<Longrightarrow> admission_ordered s \<Longrightarrow> admission_ordered (emit e s)"
  by (rule admission_ordered_filter [of s _ "[e]" "\<lambda>k. True"]) simp_all

lemma within_capacity_emit [simp]: "within_capacity (emit e s) = within_capacity s"
  by (simp add: within_capacity_def)

lemma initialize_invariant:
  "pool_invariant s \<Longrightarrow> pool_invariant (snd (initialize_course env c kw s))"
  by (simp add: pool_invariant_def initialize_consistent initialize_admission_ordered)

text \<open>Line 157, for a course that has a counter: no key is added or moved.\<close>

lemma touch_invariant:
  assumes "c \<in> set (keys (course_access_count s))"
  shows "pool_invariant (s\<lparr>course_access_count := AList.update c n (course_access_count s)\<rparr>)
           = pool_invariant s"
    and "within_capacity (s\<lparr>course_access_count := AList.update c n (course_access_count s)\<rparr>)
           = within_capacity s"
  using assms
  by (simp_all add: pool_invariant_def consistent_def admission_ordered_def
      within_capacity_def keys_update_present)

lemma get_rag_frame [simp]:
  "max_preloaded (snd (get_rag env c s)) = max_preloaded s"
  "rag_kwargs (snd (get_rag env c s)) = rag_kwargs s"
proof -
  have i: "max_preloaded s1 = max_preloaded s \<and> rag_kwargs s1 = rag_kwargs s"
    if "initialize_course env c [] s = (r, s1)" for r s1
    using initialize_frame [of env c "[]" s] that by simp
  show "max_preloaded (snd (get_rag env c s)) = max_preloaded s"
    by (cases rule: get_rag_cases [of s c env]) (use i in auto)
  show "rag_kwargs (snd (get_rag env c s)) = rag_kwargs s"
    by (cases rule: get_rag_cases [of s c env]) (use i in auto)
qed

lemma get_rag_invariant:
  assumes "pool_invariant s"
  shows "pool_invariant (snd (get_rag env c s))"
proof (cases rule: get_rag_cases [of s c env])
  case (hit rag)
  then have "c \<in> set (keys (rag_instances s))"
    using map_of_None_keys [of "rag_instances s" c] by simp
  with assms have "c \<in> set (keys (course_access_count s))"
    by (simp add: pool_invariant_def consistent_keys)
  with assms show ?thesis by (simp add: hit(2) touch_invariant)
next
  case (failed e s1)
  with initialize_invariant [OF assms, of env c "[]"] show ?thesis by simp
next
  case (admitted rag s1)
  have inv: "pool_invariant s1"
    using initialize_invariant [OF assms, of env c "[]"] admitted(2) by simp
  have "c \<in> set (keys (rag_instances s1))"
    using initialize_Inr [OF admitted(2)] map_of_None_keys [of "rag_instances s1" c] by simp
  with inv have "c \<in> set (keys (course_access_count s1))"
    by (simp add: pool_invariant_def consistent_keys)
  with inv show ?thesis by (simp add: admitted(3) touch_invariant)
qed

lemma get_rag_within_capacity:
  assumes "pool_invariant s" and "within_capacity s"
  shows "within_capacity (snd (get_rag env c s))"
proof -
  have i: "within_capacity s1" if "initialize_course env c [] s = (r, s1)" for r s1
    using initialize_within_capacity [of s env c "[]"] assms that
    by (simp add: pool_invariant_def)
  show ?thesis
    by (cases rule: get_rag_cases [of s c env])
      (use assms(2) i in \<open>auto simp: within_capacity_def\<close>)
qed

subsection \<open>\<open>switch_course\<close> and \<open>cleanup\<close>\<close>

lemma switch_course_snd:
  "snd (switch_course env c s) =
     (case fst (get_rag env c s) of
        Inl e \<Rightarrow> emit (LogError (SwitchFailed c e)) (snd (get_rag env c s))
      | Inr rag \<Rightarrow> snd (get_rag env c s))"
  by (simp add: switch_course_def split: prod.splits sum.splits)

lemma switch_course_invariant:
  assumes "pool_invariant s"
  shows "pool_invariant (snd (switch_course env c s))"
  using get_rag_invariant [OF assms, of env c]
  by (simp add: switch_course_snd pool_invariant_def admission_ordered_emit quiet_def
      split: sum.splits)

lemma switch_course_within_capacity:
  assumes "pool_invariant s" and "within_capacity s"
  shows "within_capacity (snd (switch_course env c s))"
  using get_rag_within_capacity [OF assms, of env c]
  by (simp add: switch_course_snd split: sum.splits)

lemma cleanup_loop_fields [simp]:
  "rag_instances (cleanup_loop env items s) = rag_instances s"
  "course_access_count (cleanup_loop env items s) = course_access_count s"
  "max_preloaded (cleanup_loop env items s) = max_preloaded s"
  "rag_kwargs (cleanup_loop env items s) = rag_kwargs s"
  by (induction env items s rule: cleanup_loop.induct; simp split: option.splits)+

lemma cleanup_loop_trace:
  "trace (cleanup_loop env items s) = trace s @ concat (map (cleanup_events env) items)"
  by (induction env items s rule: cleanup_loop.induct)
    (simp_all add: cleanup_events_def split: option.splits)

lemma cleanup_invariant: "pool_invariant (snd (cleanup env s))"
  by (simp add: cleanup_def pool_invariant_def consistent_def admission_ordered_def keys_def)

lemma cleanup_within_capacity:
  "within_capacity s \<Longrightarrow> within_capacity (snd (cleanup env s))"
  by (simp add: cleanup_def within_capacity_def)


subsection \<open>\<open>gather\<close> and \<open>preload_courses\<close>\<close>

lemma gather_invariant:
  assumes "\<And>t s. t \<in> set ts \<Longrightarrow> P s \<Longrightarrow> P (snd (t s))" and "P s"
  shows "P (snd (gather ts s))"
  using assms
proof (induction ts arbitrary: s)
  case Nil
  then show ?case by simp
next
  case (Cons t ts)
  have first: "P (snd (t s))" using Cons.prems by simp
  then have rest: "P (snd (gather ts (snd (t s))))"
    using Cons.IH Cons.prems(1) by simp
  show ?case
  proof (cases "t s")
    case (Pair r s')
    with first rest show ?thesis
      by (cases r; cases "gather ts s'") (auto split: sum.splits)
  qed
qed

lemma preload_snd:
  "snd (preload_courses env cs kw s) =
     (let retained = py_slice_to cs (max_preloaded s);
          tasks = map (\<lambda>c. initialize_course env c kw) retained
      in if retained \<noteq> [] \<and> rebinds_parameter kw then s
         else case fst (gather tasks s) of
                Inl e \<Rightarrow> snd (gather tasks s)
              | Inr rs \<Rightarrow> emit (LogInfo (CoursesPreloaded (length tasks))) (snd (gather tasks s)))"
  by (simp add: preload_courses_def Let_def split: prod.splits sum.splits)

lemma preload_invariant:
  assumes "pool_invariant s"
  shows "pool_invariant (snd (preload_courses env cs kw s))"
proof -
  let ?tasks = "map (\<lambda>c. initialize_course env c kw) (py_slice_to cs (max_preloaded s))"
  have "pool_invariant (snd (gather ?tasks s))"
    by (rule gather_invariant [where P = pool_invariant])
      (use assms in \<open>auto simp: initialize_invariant\<close>)
  with assms show ?thesis
    by (simp add: preload_snd Let_def pool_invariant_def admission_ordered_emit quiet_def
        split: sum.splits)
qed

lemma preload_within_capacity:
  assumes "pool_invariant s" and "within_capacity s"
  shows "within_capacity (snd (preload_courses env cs kw s))"
proof -
  let ?tasks = "map (\<lambda>c. initialize_course env c kw) (py_slice_to cs (max_preloaded s))"
  have "pool_invariant (snd (gather ?tasks s)) \<and> within_capacity (snd (gather ?tasks s))"
    by (rule gather_invariant [where P = "\<lambda>s. pool_invariant s \<and> within_capacity s"])
      (use assms initialize_invariant initialize_within_capacity in
         \<open>auto simp: pool_invariant_def\<close>)
  with assms(2) show ?thesis
    by (simp add: preload_snd Let_def split: sum.splits)
qed

lemma preload_frame [simp]:
  "max_preloaded (snd (preload_courses env cs kw s)) = max_preloaded s"
proof -
  let ?tasks = "map (\<lambda>c. initialize_course env c kw) (py_slice_to cs (max_preloaded s))"
  have "max_preloaded (snd (gather ?tasks s)) = max_preloaded s"
    by (rule gather_invariant [where P = "\<lambda>s'. max_preloaded s' = max_preloaded s"]) auto
  then show ?thesis
    by (simp add: preload_snd Let_def split: sum.splits)
qed

lemma call_initialize_snd:
  "snd (call_initialize_course env c kw s) =
     (if rebinds_parameter kw then s else snd (initialize_course env c kw s))"
  by (simp add: call_initialize_course_def)

subsection \<open>What every sequence of operations preserves\<close>

lemma step_invariant: "pool_invariant s \<Longrightarrow> pool_invariant (step x s)"
proof (cases x)
  case (Pair env o')
  assume "pool_invariant s"
  then show ?thesis unfolding Pair
    by (cases o')
      (simp_all add: call_initialize_snd initialize_invariant preload_invariant
        get_rag_invariant switch_course_invariant cleanup_invariant)
qed

lemma step_within_capacity:
  "pool_invariant s \<Longrightarrow> within_capacity s \<Longrightarrow> within_capacity (step x s)"
proof (cases x)
  case (Pair env o')
  assume "pool_invariant s" "within_capacity s"
  then show ?thesis unfolding Pair
    by (cases o')
      (simp_all add: call_initialize_snd initialize_within_capacity
        preload_within_capacity get_rag_within_capacity switch_course_within_capacity
        cleanup_within_capacity pool_invariant_def)
qed

lemma step_max_preloaded [simp]: "max_preloaded (step x s) = max_preloaded s"
proof (cases x)
  case (Pair env o')
  show ?thesis unfolding Pair
    by (cases o')
      (simp_all add: call_initialize_snd switch_course_snd cleanup_def split: sum.splits)
qed

lemma run_snoc: "run (ops @ [x]) s = step x (run ops s)"
  by (simp add: run_def)

lemma run_invariant: "pool_invariant s \<Longrightarrow> pool_invariant (run ops s)"
  by (induction ops rule: rev_induct) (simp_all add: run_def step_invariant)

lemma run_within_capacity:
  "pool_invariant s \<Longrightarrow> within_capacity s \<Longrightarrow> within_capacity (run ops s)"
  by (induction ops rule: rev_induct)
    (simp_all add: run_snoc run_invariant step_within_capacity, simp add: run_def)

lemma run_max_preloaded [simp]: "max_preloaded (run ops s) = max_preloaded s"
  by (induction ops rule: rev_induct) (simp_all add: run_snoc, simp add: run_def)

lemma init_invariant: "pool_invariant (RAGManager_init m args)"
  by (simp add: RAGManager_init_def pool_invariant_def consistent_def admission_ordered_def
      keys_def)

lemma init_fields [simp]:
  "rag_instances (RAGManager_init m args) = []"
  "course_access_count (RAGManager_init m args) = []"
  "max_preloaded (RAGManager_init m args) = m"
  "trace (RAGManager_init m args) = []"
  by (simp_all add: RAGManager_init_def)

lemma empty_pool_raises:
  assumes "max_preloaded s \<le> 0" "rag_instances s = []" "course_access_count s = []"
  shows "initialize_course env c kw s = (Inl ValueError, s)"
  using assms evict_empty [of s env] by (simp add: initialize_course_def)

lemma get_rag_Inl_absent:
  assumes "c \<notin> set (keys (course_access_count s))"
      and "get_rag env c s = (Inl e, s')"
  shows "c \<notin> set (keys (rag_instances s')) \<and> c \<notin> set (keys (course_access_count s'))"
proof (cases rule: get_rag_cases [of s c env])
  case (hit rag)
  with assms(2) show ?thesis by simp
next
  case (failed e' s1)
  with assms(2) have "initialize_course env c [] s = (Inl e, s')" by simp
  from initialize_Inl(2,3) [OF this] assms(1) show ?thesis by simp
next
  case (admitted rag s1)
  with assms(2) show ?thesis by simp
qed

subsection \<open>What \<open>gather\<close> returns\<close>



lemma first_failure_simps [simp]:
  "first_failure [] = 0"
  "first_failure (Inl e # rs) = 0"
  "first_failure (Inr v # rs) = Suc (first_failure rs)"
  by (simp_all add: first_failure_def)



subsection \<open>Admissions into free room\<close>

lemma initialize_admit_room:
  assumes "c \<notin> set (keys (rag_instances s))"
      and "c \<notin> set (keys (course_access_count s))"
      and "int (length (rag_instances s)) < max_preloaded s"
      and "LightRAG_raises env (course_kwargs s c kw) = None"
      and "initialize_storages_raises env (LightRAG (course_kwargs s c kw)) = None"
  shows "initialize_course env c kw s =
           (Inr (LightRAG (course_kwargs s c kw)),
            s\<lparr>rag_instances := rag_instances s @ [(c, LightRAG (course_kwargs s c kw))],
              course_access_count := course_access_count s @ [(c, 0)],
              trace := trace s @ admission_events s kw c\<rparr>)"
proof -
  have none: "map_of (rag_instances s) c = None"
    using assms(1) by (simp add: map_of_None_keys)
  have kw: "course_kwargs (emit e s) c kw = course_kwargs s c kw" for e
    by (simp add: course_kwargs_def)
  show ?thesis
    using assms none
    by (simp add: initialize_course_def evict_room Let_def keys_update_absent
        admission_events_def emit_def)
qed

lemma gather_admit_all:
  assumes "\<forall>kw'. LightRAG_raises env kw' = None"
      and "\<forall>rag. initialize_storages_raises env rag = None"
      and "distinct cs"
      and "set cs \<inter> set (keys (rag_instances s)) = {}"
      and "set cs \<inter> set (keys (course_access_count s)) = {}"
      and "int (length (rag_instances s) + length cs) \<le> max_preloaded s"
  shows "gather (map (\<lambda>c. initialize_course env c kw) cs) s =
           (Inr (map (\<lambda>c. LightRAG (course_kwargs s c kw)) cs),
            s\<lparr>rag_instances :=
                rag_instances s @ map (\<lambda>c. (c, LightRAG (course_kwargs s c kw))) cs,
              course_access_count := course_access_count s @ map (\<lambda>c. (c, 0)) cs,
              trace := trace s @ concat (map (admission_events s kw) cs)\<rparr>)"
  using assms(3-)
proof (induction cs arbitrary: s)
  case Nil
  show ?case by simp
next
  case (Cons c cs)
  let ?rag = "LightRAG (course_kwargs s c kw)"
  let ?s' = "s\<lparr>rag_instances := rag_instances s @ [(c, ?rag)],
              course_access_count := course_access_count s @ [(c, 0)],
              trace := trace s @ admission_events s kw c\<rparr>"
  have step: "initialize_course env c kw s = (Inr ?rag, ?s')"
    using Cons.prems assms(1,2) by (intro initialize_admit_room) auto
  have kw: "course_kwargs ?s' c' kw = course_kwargs s c' kw" for c'
    by (simp add: course_kwargs_def)
  have ev: "admission_events ?s' kw = admission_events s kw"
    by (rule ext) (simp add: admission_events_def course_kwargs_def)
  have rest: "gather (map (\<lambda>c. initialize_course env c kw) cs) ?s' =
           (Inr (map (\<lambda>c. LightRAG (course_kwargs ?s' c kw)) cs),
            ?s'\<lparr>rag_instances :=
                rag_instances ?s' @ map (\<lambda>c. (c, LightRAG (course_kwargs ?s' c kw))) cs,
              course_access_count := course_access_count ?s' @ map (\<lambda>c. (c, 0)) cs,
              trace := trace ?s' @ concat (map (admission_events ?s' kw) cs)\<rparr>)"
    using Cons.prems by (intro Cons.IH) (auto simp: keys_def)
  show ?case
    using step rest by (simp add: kw ev)
qed

lemma course_kwargs_namespace:
  "map_of (course_kwargs s c kw) ''namespace_prefix'' = Some (PyStr (''course_'' @ c))"
  by (simp add: course_kwargs_def update_conv')

lemma course_kwargs_inj: "course_kwargs s c kw = course_kwargs s c' kw \<Longrightarrow> c = c'"
proof -
  assume "course_kwargs s c kw = course_kwargs s c' kw"
  then have "map_of (course_kwargs s c kw) ''namespace_prefix'' =
             map_of (course_kwargs s c' kw) ''namespace_prefix''" by (rule arg_cong)
  then have "PyStr (''course_'' @ c) = PyStr (''course_'' @ c')"
    unfolding course_kwargs_namespace by (rule option.inject [THEN iffD1])
  then show "c = c'" by simp
qed

lemma access_count_member:
  "distinct (keys d) \<Longrightarrow> (k, n) \<in> set d \<Longrightarrow> map_of d k = Some n"
  by (simp add: keys_def)

lemma admitted_evicts:
  assumes inv: "pool_invariant s"
      and absent: "c \<notin> set (keys (rag_instances s))"
      and full: "max_preloaded s \<le> int (length (rag_instances s))"
      and adm: "initialize_course env c kw s = (Inr rag, s')"
  obtains v n pre post where
    "course_access_count s = pre @ (v, n) # post"
    "\<forall>x \<in> set pre. n < snd x" "\<forall>x \<in> set (course_access_count s). n \<le> snd x"
    "rag_instances s' = AList.delete v (rag_instances s) @ [(c, rag)]"
    "course_access_count s' = AList.delete v (course_access_count s) @ [(c, 0)]"
proof -
  from inv have con: "consistent s" by (simp add: pool_invariant_def)
  have none: "map_of (rag_instances s) c = None"
    using absent by (simp add: map_of_None_keys)
  from adm none obtain s1 where
    ev: "evict_least_used env s = (Inr (), s1)" and
    ri: "rag_instances s' = AList.update c rag (rag_instances s1)" and
    cac: "course_access_count s' = AList.update c 0 (course_access_count s1)"
    by (cases rule: initialize_cases [of s c env kw]) auto
  from con show thesis
  proof (cases rule: evict_cases [where env = env])
    case room
    with full show ?thesis by simp
  next
    case empty
    with ev show ?thesis by simp
  next
    case (stuck v n rag' e pre post)
    with ev show ?thesis by simp
  next
    case (evicted v n rag' pre post)
    from evicted(7) ev have
      ri1: "rag_instances s1 = AList.delete v (rag_instances s)" and
      cac1: "course_access_count s1 = AList.delete v (course_access_count s)"
      by auto
    have "c \<notin> set (keys (rag_instances s1))"
      using absent by (simp add: ri1 keys_delete)
    moreover have "c \<notin> set (keys (course_access_count s1))"
      using absent con by (simp add: cac1 keys_delete consistent_keys)
    ultimately have
      "rag_instances s' = AList.delete v (rag_instances s) @ [(c, rag)]"
      "course_access_count s' = AList.delete v (course_access_count s) @ [(c, 0)]"
      using ri cac ri1 cac1 by (simp_all add: keys_update_absent)
    with evicted(2,3,4) show ?thesis by (rule that)
  qed
qed

lemma first_minimum_is_oldest:
  assumes ord: "admission_ordered s" and dist: "distinct (keys (course_access_count s))"
      and split: "course_access_count s = pre @ (v, n) # post"
      and before: "\<forall>x \<in> set pre. n < snd x"
      and least: "\<forall>x \<in> set (course_access_count s). n \<le> snd x"
      and k: "k \<in> set (keys (course_access_count s))"
  shows "access_count s v \<le> access_count s k \<and>
         (k \<noteq> v \<and> access_count s k = access_count s v \<longrightarrow>
            admitted_at (trace s) v < admitted_at (trace s) k)"
proof -
  have v: "access_count s v = n"
    using access_count_member [OF dist, of v n] split by (simp add: access_count_def)
  from k obtain m where km: "(k, m) \<in> set (course_access_count s)"
    by (auto simp: keys_def)
  then have kc: "access_count s k = m"
    using access_count_member [OF dist] by (simp add: access_count_def)
  from km least have le: "n \<le> m" by fastforce
  have tie: "admitted_at (trace s) v < admitted_at (trace s) k" if "k \<noteq> v" "m = n"
  proof -
    from km that(1) split have "(k, m) \<in> set pre \<or> (k, m) \<in> set post" by auto
    moreover from before that(2) have "(k, m) \<notin> set pre" by fastforce
    ultimately have "k \<in> set (keys post)" by (force simp: keys_def)
    moreover from ord split have
      "sorted_wrt (\<lambda>a b. admitted_at (trace s) a < admitted_at (trace s) b)
         (keys pre @ v # keys post)"
      by (simp add: admission_ordered_def keys_def)
    ultimately show ?thesis by (simp add: sorted_wrt_append)
  qed
  from v kc le tie show ?thesis by simp
qed

section \<open>The claims\<close>

text \<open>
  A state \<open>run ops (RAGManager_init m args)\<close> is what a freshly created manager has
  become after the operations \<open>ops\<close>, each run with the behaviour the engines had
  at that time.
\<close>

subsection \<open>The eviction victim\<close>

text \<open>
  C1. When \<open>initialize_course\<close> admits a course that is not resident while the pool is
  at capacity, one resident course, the victim, leaves both dictionaries and the new
  course is appended. The victim has the smallest counter among the resident courses,
  and every other resident course with the same counter was admitted later
  (\<^const>\<open>admitted_at\<close> reads the admission from the trace). With \<open>max_preloaded = 2\<close>,
  \<open>get A, get A, get B, get C\<close> leaves \<open>{A, C}\<close> resident, and \<open>get A, get B, get C\<close>
  leaves \<open>{B, C}\<close>.
\<close>

theorem eviction_victim:
  assumes "s = run ops (RAGManager_init m args)"
      and "c \<notin> set (keys (rag_instances s))"
      and "max_preloaded s \<le> int (length (rag_instances s))"
      and "initialize_course env c kw s = (Inr rag, s')"
  shows "(\<exists>victim.
            victim \<in> set (keys (rag_instances s)) \<and>
            keys (rag_instances s') = removeAll victim (keys (rag_instances s)) @ [c] \<and>
            keys (course_access_count s') = keys (rag_instances s') \<and>
            (\<forall>k \<in> set (keys (rag_instances s)).
               access_count s victim \<le> access_count s k \<and>
               (k \<noteq> victim \<and> access_count s k = access_count s victim \<longrightarrow>
                  admitted_at (trace s) victim < admitted_at (trace s) k))) \<and>
         set (keys (rag_instances
           (run [(healthy, Get ''A''), (healthy, Get ''A''), (healthy, Get ''B''),
                 (healthy, Get ''C'')] (RAGManager_init 2 default_args)))) = {''A'', ''C''} \<and>
         set (keys (rag_instances
           (run [(healthy, Get ''A''), (healthy, Get ''B''), (healthy, Get ''C'')]
              (RAGManager_init 2 default_args)))) = {''B'', ''C''}"
proof -
  have inv: "pool_invariant s"
    unfolding assms(1) by (rule run_invariant [OF init_invariant])
  then have con: "consistent s" and ord: "admission_ordered s"
    by (simp_all add: pool_invariant_def)
  have ks: "keys (rag_instances s) = keys (course_access_count s)"
    using con by (rule consistent_keys)
  have dist: "distinct (keys (course_access_count s))"
    using con by (rule consistent_distinct)
  from inv assms(2,3,4) obtain v n pre post where
    split: "course_access_count s = pre @ (v, n) # post" and
    before: "\<forall>x \<in> set pre. n < snd x" and
    least: "\<forall>x \<in> set (course_access_count s). n \<le> snd x" and
    ri: "rag_instances s' = AList.delete v (rag_instances s) @ [(c, rag)]" and
    cac: "course_access_count s' = AList.delete v (course_access_count s) @ [(c, 0)]"
    by (rule admitted_evicts)
  have "v \<in> set (keys (rag_instances s))"
    unfolding ks split by (simp add: keys_def)
  moreover have "keys (rag_instances s') = removeAll v (keys (rag_instances s)) @ [c]"
    unfolding ri using keys_delete [of v "rag_instances s"] by (simp add: keys_def)
  moreover have "keys (course_access_count s') = keys (rag_instances s')"
    unfolding ri cac
    using keys_delete [of v "rag_instances s"] keys_delete [of v "course_access_count s"] ks
    by (simp add: keys_def)
  moreover have "\<forall>k \<in> set (keys (rag_instances s)).
       access_count s v \<le> access_count s k \<and>
       (k \<noteq> v \<and> access_count s k = access_count s v \<longrightarrow>
          admitted_at (trace s) v < admitted_at (trace s) k)"
    unfolding ks using first_minimum_is_oldest [OF ord dist split before least] by blast
  ultimately have general: "\<exists>victim.
            victim \<in> set (keys (rag_instances s)) \<and>
            keys (rag_instances s') = removeAll victim (keys (rag_instances s)) @ [c] \<and>
            keys (course_access_count s') = keys (rag_instances s') \<and>
            (\<forall>k \<in> set (keys (rag_instances s)).
               access_count s victim \<le> access_count s k \<and>
               (k \<noteq> victim \<and> access_count s k = access_count s victim \<longrightarrow>
                  admitted_at (trace s) victim < admitted_at (trace s) k))"
    by blast
  have "keys (rag_instances
           (run [(healthy, Get ''A''), (healthy, Get ''A''), (healthy, Get ''B''),
                 (healthy, Get ''C'')] (RAGManager_init 2 default_args))) = [''A'', ''C'']"
    by code_simp
  then have two: "set (keys (rag_instances
           (run [(healthy, Get ''A''), (healthy, Get ''A''), (healthy, Get ''B''),
                 (healthy, Get ''C'')] (RAGManager_init 2 default_args)))) = {''A'', ''C''}"
    by simp
  have "keys (rag_instances
           (run [(healthy, Get ''A''), (healthy, Get ''B''), (healthy, Get ''C'')]
              (RAGManager_init 2 default_args))) = [''B'', ''C'']"
    by code_simp
  then have one: "set (keys (rag_instances
           (run [(healthy, Get ''A''), (healthy, Get ''B''), (healthy, Get ''C'')]
              (RAGManager_init 2 default_args)))) = {''B'', ''C''}"
    by simp
  from general two one show ?thesis by blast
qed

text \<open>
  The theorem at the admission of \<open>C\<close> when \<open>A\<close> and \<open>B\<close> are resident with
  counter 1 each.
\<close>

theorem eviction_victim_witness:
  "two_residents =
     run [(healthy, Get ''A''), (healthy, Get ''B'')] (RAGManager_init 2 default_args) \<and>
   ''C'' \<notin> set (keys (rag_instances two_residents)) \<and>
   max_preloaded two_residents \<le> int (length (rag_instances two_residents)) \<and>
   initialize_course healthy ''C'' [] two_residents =
     (Inr (projr (fst third_admission)), snd third_admission) \<and>
   (\<exists>victim.
      victim \<in> set (keys (rag_instances two_residents)) \<and>
      keys (rag_instances (snd third_admission)) =
        removeAll victim (keys (rag_instances two_residents)) @ [''C''] \<and>
      keys (course_access_count (snd third_admission)) =
        keys (rag_instances (snd third_admission)) \<and>
      (\<forall>k \<in> set (keys (rag_instances two_residents)).
         access_count two_residents victim \<le> access_count two_residents k \<and>
         (k \<noteq> victim \<and> access_count two_residents k = access_count two_residents victim \<longrightarrow>
            admitted_at (trace two_residents) victim < admitted_at (trace two_residents) k)))"
proof -
  have h1: "two_residents =
     run [(healthy, Get ''A''), (healthy, Get ''B'')] (RAGManager_init 2 default_args)"
    by (rule two_residents_def)
  have h2: "''C'' \<notin> set (keys (rag_instances two_residents))"
    by code_simp
  have h3: "max_preloaded two_residents \<le> int (length (rag_instances two_residents))"
    by code_simp
  have h4: "initialize_course healthy ''C'' [] two_residents =
     (Inr (projr (fst third_admission)), snd third_admission)"
    by code_simp
  from eviction_victim [OF h1 h2 h3 h4] h1 h2 h3 h4 show ?thesis by blast
qed

subsection \<open>A victim whose finalization fails\<close>

text \<open>
  C2. The claim is that a victim whose \<open>finalize_storages\<close> raises is removed all the
  same and the new course is admitted. The eviction block awaits \<open>finalize_storages\<close>
  with no handler (line 108), unlike the loop of \<open>cleanup\<close> (lines 180 to 184): with
  \<open>A\<close> resident in a pool of capacity 1 and a finalization that raises, \<open>get B\<close>
  raises that exception, \<open>A\<close> stays in both dictionaries and \<open>B\<close> is not admitted.
\<close>

theorem eviction_finalize_raises:
  "fst (get_rag (failing_finalize ''boom'') ''B'' one_resident) = Inl (EngineError ''boom'') \<and>
   keys (rag_instances (snd (get_rag (failing_finalize ''boom'') ''B'' one_resident)))
     = [''A''] \<and>
   keys (course_access_count (snd (get_rag (failing_finalize ''boom'') ''B'' one_resident)))
     = [''A'']"
  by code_simp

subsection \<open>A failure during \<open>preload_courses\<close>\<close>




subsection \<open>The two invariants\<close>

text \<open>
  C4. After every sequence of operations on a manager created with
  \<open>max_preloaded \<ge> 1\<close>, whatever the engines do and whether the operations return or
  raise, at most \<open>max_preloaded\<close> courses are resident.
\<close>

theorem pool_size_bounded:
  "1 \<le> m \<Longrightarrow> int (length (rag_instances (run ops (RAGManager_init m args)))) \<le> m"
proof -
  assume "1 \<le> m"
  then have "within_capacity (RAGManager_init m args)" by (simp add: within_capacity_def)
  then have "within_capacity (run ops (RAGManager_init m args))"
    by (rule run_within_capacity [OF init_invariant])
  then show ?thesis by (simp add: within_capacity_def)
qed

theorem pool_size_bounded_witness:
  "(1::int) \<le> 2 \<and>
   int (length (rag_instances
     (run [(healthy, Get ''A''), (healthy, Preload [''B'', ''C'', ''D''] []),
           (healthy, Switch ''E''), (healthy, Initialize ''F'' [])]
        (RAGManager_init 2 default_args)))) \<le> 2"
  using pool_size_bounded [of 2
      "[(healthy, Get ''A''), (healthy, Preload [''B'', ''C'', ''D''] []),
        (healthy, Switch ''E''), (healthy, Initialize ''F'' [])]" default_args]
  by simp

text \<open>
  C5. After every sequence of operations on a freshly created manager, the keys of
  \<open>rag_instances\<close> and the keys of \<open>course_access_count\<close> are the same set.
\<close>

theorem pool_and_tracker_keys:
  "fst ` set (rag_instances (run ops (RAGManager_init m args))) =
   fst ` set (course_access_count (run ops (RAGManager_init m args)))"
proof -
  have "consistent (run ops (RAGManager_init m args))"
    using run_invariant [OF init_invariant] by (simp add: pool_invariant_def)
  then have "keys (rag_instances (run ops (RAGManager_init m args))) =
             keys (course_access_count (run ops (RAGManager_init m args)))"
    by (rule consistent_keys)
  then have "set (keys (rag_instances (run ops (RAGManager_init m args)))) =
             set (keys (course_access_count (run ops (RAGManager_init m args))))"
    by simp
  then show ?thesis by (simp add: keys_def)
qed

theorem pool_and_tracker_keys_witness:
  "fst ` set (rag_instances
     (run [(healthy, Get ''A''), (healthy, Get ''B''), (healthy, Cleanup)]
        (RAGManager_init 1 default_args))) =
   fst ` set (course_access_count
     (run [(healthy, Get ''A''), (healthy, Get ''B''), (healthy, Cleanup)]
        (RAGManager_init 1 default_args)))"
  by (rule pool_and_tracker_keys)

subsection \<open>A construction that fails\<close>

text \<open>
  C6. Let a course have no entry in either dictionary. If \<open>get_rag\<close> reaches the
  construction of its engine (the eviction block returns: there is room, or a victim
  was finalized and removed) and the constructor raises, or the constructor returns and
  \<open>initialize_storages\<close> raises, then \<open>get_rag\<close> raises that exception. And whenever
  \<open>get_rag\<close> raises, the course has no entry in either dictionary afterwards.
\<close>

theorem get_rag_construction_failure:
  assumes "c \<notin> set (keys (rag_instances s))"
      and "c \<notin> set (keys (course_access_count s))"
  shows "(fst (evict_least_used env s) = Inr () \<and>
          (LightRAG_raises env (course_kwargs s c []) = Some e \<or>
           (LightRAG_raises env (course_kwargs s c []) = None \<and>
            initialize_storages_raises env (LightRAG (course_kwargs s c [])) = Some e))
          \<longrightarrow> fst (get_rag env c s) = Inl e) \<and>
         (isl (fst (get_rag env c s)) \<longrightarrow>
            c \<notin> set (keys (rag_instances (snd (get_rag env c s)))) \<and>
            c \<notin> set (keys (course_access_count (snd (get_rag env c s)))))"
proof (intro conjI impI)
  assume reached: "fst (evict_least_used env s) = Inr () \<and>
          (LightRAG_raises env (course_kwargs s c []) = Some e \<or>
           (LightRAG_raises env (course_kwargs s c []) = None \<and>
            initialize_storages_raises env (LightRAG (course_kwargs s c [])) = Some e))"
  define s1 where "s1 = snd (evict_least_used env s)"
  have ev: "evict_least_used env s = (Inr (), s1)"
    using reached unfolding s1_def by (simp add: prod_eq_iff)
  have kw: "course_kwargs s1 c [] = course_kwargs s c []"
    using evict_frame(2) [of env s] ev by (simp add: course_kwargs_def)
  have none: "map_of (rag_instances s) c = None"
    using assms(1) by (simp add: map_of_None_keys)
  have "fst (initialize_course env c [] s) = Inl e"
    using reached none ev kw
    by (cases rule: initialize_cases [of s c env "[]"]) auto
  then have i: "initialize_course env c [] s = (Inl e, snd (initialize_course env c [] s))"
    by (simp add: prod_eq_iff)
  have "get_rag env c s = (Inl e, snd (initialize_course env c [] s))"
    using i none by (cases rule: get_rag_cases [of s c env]) auto
  then show "fst (get_rag env c s) = Inl e" by simp
next
  assume "isl (fst (get_rag env c s))"
  then obtain e' where "fst (get_rag env c s) = Inl e'"
    by (cases "fst (get_rag env c s)") auto
  then have g: "get_rag env c s = (Inl e', snd (get_rag env c s))"
    by (simp add: prod_eq_iff)
  from get_rag_Inl_absent [OF assms(2) g]
  show "c \<notin> set (keys (rag_instances (snd (get_rag env c s))))"
    and "c \<notin> set (keys (course_access_count (snd (get_rag env c s))))"
    by simp_all
qed

theorem get_rag_construction_failure_witness:
  "''bad'' \<notin> set (keys (rag_instances (RAGManager_init 2 default_args))) \<and>
   ''bad'' \<notin> set (keys (course_access_count (RAGManager_init 2 default_args))) \<and>
   fst (evict_least_used (failing_construct ''bad'' ''no'') (RAGManager_init 2 default_args))
     = Inr () \<and>
   LightRAG_raises (failing_construct ''bad'' ''no'')
     (course_kwargs (RAGManager_init 2 default_args) ''bad'' []) = Some (EngineError ''no'') \<and>
   fst (get_rag (failing_construct ''bad'' ''no'') ''bad'' (RAGManager_init 2 default_args))
     = Inl (EngineError ''no'') \<and>
   ''bad'' \<notin> set (keys (rag_instances
     (snd (get_rag (failing_construct ''bad'' ''no'') ''bad''
        (RAGManager_init 2 default_args))))) \<and>
   ''bad'' \<notin> set (keys (course_access_count
     (snd (get_rag (failing_construct ''bad'' ''no'') ''bad''
        (RAGManager_init 2 default_args)))))"
proof -
  have h1: "''bad'' \<notin> set (keys (rag_instances (RAGManager_init 2 default_args)))"
    by (simp add: keys_def)
  have h2: "''bad'' \<notin> set (keys (course_access_count (RAGManager_init 2 default_args)))"
    by (simp add: keys_def)
  have h3: "fst (evict_least_used (failing_construct ''bad'' ''no'')
              (RAGManager_init 2 default_args)) = Inr ()"
    by (simp add: evict_room)
  have h4: "LightRAG_raises (failing_construct ''bad'' ''no'')
     (course_kwargs (RAGManager_init 2 default_args) ''bad'' []) = Some (EngineError ''no'')"
    by code_simp
  note w = get_rag_construction_failure [OF h1 h2, of "failing_construct ''bad'' ''no''"
      "EngineError ''no''"]
  from w h3 h4 have r: "fst (get_rag (failing_construct ''bad'' ''no'') ''bad''
      (RAGManager_init 2 default_args)) = Inl (EngineError ''no'')"
    by blast
  then have "isl (fst (get_rag (failing_construct ''bad'' ''no'') ''bad''
      (RAGManager_init 2 default_args)))"
    by simp
  with w h1 h2 h3 h4 r show ?thesis by blast
qed

subsection \<open>\<open>preload_courses\<close> beyond the capacity\<close>

text \<open>
  C7. On an empty pool with \<open>max_preloaded = m\<close>, \<open>0 \<le> m\<close>, and a list of more than
  \<open>m\<close> distinct courses, when no constructor and no \<open>initialize_storages\<close> raises
  and the keyword arguments passed on name no parameter of \<open>initialize_course\<close>:
  \<open>preload_courses\<close> returns, the resident courses are the first \<open>m\<close> of the list in
  that order, each with counter 0, and the only events are one admission for each of
  them and the final log record, so no engine is constructed for a course beyond the
  first \<open>m\<close>.
\<close>

theorem preload_beyond_capacity:
  assumes "distinct ids" and "0 \<le> m" and "m < int (length ids)"
      and "\<forall>kw'. LightRAG_raises env kw' = None"
      and "\<forall>rag. initialize_storages_raises env rag = None"
      and "rag_instances s = []" and "course_access_count s = []"
      and "max_preloaded s = m"
      and "\<not> rebinds_parameter kw"
  shows "preload_courses env ids kw s =
           (Inr (),
            s\<lparr>rag_instances :=
                map (\<lambda>c. (c, LightRAG (course_kwargs s c kw))) (take (nat m) ids),
              course_access_count := map (\<lambda>c. (c, 0)) (take (nat m) ids),
              trace := trace s @ concat (map (admission_events s kw) (take (nat m) ids))
                         @ [LogInfo (CoursesPreloaded (nat m))]\<rparr>) \<and>
         (\<forall>c \<in> set (drop (nat m) ids).
            Construct (course_kwargs s c kw) \<notin>
              set (concat (map (admission_events s kw) (take (nat m) ids))))"
proof -
  let ?cs = "take (nat m) ids"
  have cs: "py_slice_to ids (max_preloaded s) = ?cs"
    using assms(2,8) by (simp add: py_slice_to_def)
  have len: "length ?cs = nat m" using assms(2,3) by simp
  have run: "gather (map (\<lambda>c. initialize_course env c kw) ?cs) s =
           (Inr (map (\<lambda>c. LightRAG (course_kwargs s c kw)) ?cs),
            s\<lparr>rag_instances :=
                rag_instances s @ map (\<lambda>c. (c, LightRAG (course_kwargs s c kw))) ?cs,
              course_access_count := course_access_count s @ map (\<lambda>c. (c, 0)) ?cs,
              trace := trace s @ concat (map (admission_events s kw) ?cs)\<rparr>)"
    using assms(1-8) len
    by (intro gather_admit_all) (simp_all add: keys_def)
  have first: "preload_courses env ids kw s =
           (Inr (),
            s\<lparr>rag_instances := map (\<lambda>c. (c, LightRAG (course_kwargs s c kw))) ?cs,
              course_access_count := map (\<lambda>c. (c, 0)) ?cs,
              trace := trace s @ concat (map (admission_events s kw) ?cs)
                         @ [LogInfo (CoursesPreloaded (nat m))]\<rparr>)"
    unfolding preload_courses_def cs Let_def run
    using len assms(6,7,9) by (simp add: emit_def)
  have second: "Construct (course_kwargs s c kw) \<notin>
                  set (concat (map (admission_events s kw) ?cs))"
    if "c \<in> set (drop (nat m) ids)" for c
  proof
    assume "Construct (course_kwargs s c kw) \<in> set (concat (map (admission_events s kw) ?cs))"
    then obtain c' where c': "c' \<in> set ?cs"
      and "Construct (course_kwargs s c kw) \<in> set (admission_events s kw c')"
      by auto
    then have "course_kwargs s c kw = course_kwargs s c' kw"
      by (simp add: admission_events_def)
    then have "c = c'" by (rule course_kwargs_inj)
    with c' that have "c \<in> set (take (nat m) ids) \<inter> set (drop (nat m) ids)" by simp
    moreover have "set (take (nat m) ids) \<inter> set (drop (nat m) ids) = {}"
      using assms(1) by (metis append_take_drop_id distinct_append)
    ultimately show False by simp
  qed
  from first second show ?thesis by blast
qed

theorem preload_beyond_capacity_witness:
  "distinct [''x'', ''y'', ''z''] \<and> (0::int) \<le> 2 \<and> 2 < int (length [''x'', ''y'', ''z'']) \<and>
   (\<forall>kw'. LightRAG_raises healthy kw' = None) \<and>
   (\<forall>rag. initialize_storages_raises healthy rag = None) \<and>
   rag_instances (RAGManager_init 2 default_args) = [] \<and>
   course_access_count (RAGManager_init 2 default_args) = [] \<and>
   max_preloaded (RAGManager_init 2 default_args) = 2 \<and>
   \<not> rebinds_parameter [] \<and>
   keys (rag_instances (snd (preload_courses healthy [''x'', ''y'', ''z''] []
           (RAGManager_init 2 default_args)))) = [''x'', ''y''] \<and>
   course_access_count (snd (preload_courses healthy [''x'', ''y'', ''z''] []
           (RAGManager_init 2 default_args))) = [(''x'', 0), (''y'', 0)] \<and>
   Construct (course_kwargs (RAGManager_init 2 default_args) ''z'' []) \<notin>
     set (trace (snd (preload_courses healthy [''x'', ''y'', ''z''] []
           (RAGManager_init 2 default_args))))"
proof -
  have h1: "distinct [''x'', ''y'', ''z'']" by simp
  have h2: "(0::int) \<le> 2" by simp
  have h3: "2 < int (length [''x'', ''y'', ''z''])" by simp
  have h4: "\<forall>kw'. LightRAG_raises healthy kw' = None" by (simp add: healthy_def)
  have h5: "\<forall>rag. initialize_storages_raises healthy rag = None" by (simp add: healthy_def)
  have h6: "rag_instances (RAGManager_init 2 default_args) = []" by simp
  have h7: "course_access_count (RAGManager_init 2 default_args) = []" by simp
  have h8: "max_preloaded (RAGManager_init 2 default_args) = 2" by simp
  have h9: "\<not> rebinds_parameter []" by (simp add: rebinds_parameter_def)
  note w = preload_beyond_capacity [OF h1 h2 h3 h4 h5 h6 h7 h8 h9]
  have two: "take (nat 2) [''x'', ''y'', ''z''] = [''x'', ''y'']"
    and rest: "drop (nat 2) [''x'', ''y'', ''z''] = [''z'']" by simp_all
  from w have p: "preload_courses healthy [''x'', ''y'', ''z''] [] (RAGManager_init 2 default_args) =
      (Inr (),
       (RAGManager_init 2 default_args)
         \<lparr>rag_instances :=
            map (\<lambda>c. (c, LightRAG (course_kwargs (RAGManager_init 2 default_args) c [])))
              [''x'', ''y''],
          course_access_count := map (\<lambda>c. (c, 0)) [''x'', ''y''],
          trace := trace (RAGManager_init 2 default_args) @
            concat (map (admission_events (RAGManager_init 2 default_args) []) [''x'', ''y''])
            @ [LogInfo (CoursesPreloaded (nat 2))]\<rparr>)"
    unfolding two by blast
  from w have z: "Construct (course_kwargs (RAGManager_init 2 default_args) ''z'' []) \<notin>
      set (concat (map (admission_events (RAGManager_init 2 default_args) []) [''x'', ''y'']))"
    unfolding two rest by simp
  have c1: "keys (rag_instances (snd (preload_courses healthy [''x'', ''y'', ''z''] []
           (RAGManager_init 2 default_args)))) = [''x'', ''y'']"
    unfolding p by (simp add: keys_def)
  have c2: "course_access_count (snd (preload_courses healthy [''x'', ''y'', ''z''] []
           (RAGManager_init 2 default_args))) = [(''x'', 0), (''y'', 0)]"
    unfolding p by simp
  have c3: "Construct (course_kwargs (RAGManager_init 2 default_args) ''z'' []) \<notin>
     set (trace (snd (preload_courses healthy [''x'', ''y'', ''z''] []
           (RAGManager_init 2 default_args))))"
    unfolding p using z by simp
  from h1 h2 h3 h4 h5 h6 h7 h8 h9 c1 c2 c3 show ?thesis by blast
qed

subsection \<open>\<open>cleanup\<close>\<close>

text \<open>
  C8. \<open>cleanup\<close> returns normally whatever \<open>finalize_storages\<close> does. It calls
  \<open>finalize_storages\<close> on every resident engine, in order, and logs the outcome of each
  call (an error record for one that raised) before going on to the next; then both
  dictionaries are empty. A second \<open>cleanup\<close> returns normally too and changes nothing.
\<close>

theorem cleanup_never_raises:
  "fst (cleanup env s) = Inr () \<and>
   rag_instances (snd (cleanup env s)) = [] \<and>
   course_access_count (snd (cleanup env s)) = [] \<and>
   trace (snd (cleanup env s)) =
     trace s @ concat (map (cleanup_events env) (rag_instances s)) \<and>
   cleanup env' (snd (cleanup env s)) = (Inr (), snd (cleanup env s))"
  by (simp add: cleanup_def cleanup_loop_trace)

theorem cleanup_never_raises_witness:
  "fst (cleanup (failing_finalize ''boom'') two_residents) = Inr () \<and>
   rag_instances (snd (cleanup (failing_finalize ''boom'') two_residents)) = [] \<and>
   course_access_count (snd (cleanup (failing_finalize ''boom'') two_residents)) = [] \<and>
   trace (snd (cleanup (failing_finalize ''boom'') two_residents)) =
     trace two_residents @
     concat (map (cleanup_events (failing_finalize ''boom'')) (rag_instances two_residents)) \<and>
   cleanup healthy (snd (cleanup (failing_finalize ''boom'') two_residents)) =
     (Inr (), snd (cleanup (failing_finalize ''boom'') two_residents))"
  by (rule cleanup_never_raises)

subsection \<open>\<open>switch_course\<close>\<close>

text \<open>
  C9. \<open>switch_course\<close> never raises: it returns \<open>True\<close> when \<open>get_rag\<close> returns and
  \<open>False\<close> when \<open>get_rag\<close> raises. The manager is left as \<open>get_rag\<close> left it, so nothing
  of the exception is kept in it or returned; the exception goes into one error record
  of the log (line 174).
\<close>

theorem switch_course_probe:
  "fst (switch_course env c s) = Inr (\<not> isl (fst (get_rag env c s))) \<and>
   rag_instances (snd (switch_course env c s)) = rag_instances (snd (get_rag env c s)) \<and>
   course_access_count (snd (switch_course env c s)) =
     course_access_count (snd (get_rag env c s)) \<and>
   max_preloaded (snd (switch_course env c s)) = max_preloaded (snd (get_rag env c s)) \<and>
   rag_kwargs (snd (switch_course env c s)) = rag_kwargs (snd (get_rag env c s)) \<and>
   trace (snd (switch_course env c s)) =
     trace (snd (get_rag env c s)) @
       (case fst (get_rag env c s) of
          Inl e \<Rightarrow> [LogError (SwitchFailed c e)]
        | Inr rag \<Rightarrow> [])"
  by (cases "get_rag env c s"; cases "fst (get_rag env c s)") (simp_all add: switch_course_def)

theorem switch_course_probe_witness:
  "fst (switch_course (failing_construct ''bad'' ''no'') ''bad'' (RAGManager_init 2 default_args))
     = Inr False \<and>
   fst (switch_course (failing_construct ''bad'' ''no'') ''good'' (RAGManager_init 2 default_args))
     = Inr True"
proof -
  have "isl (fst (get_rag (failing_construct ''bad'' ''no'') ''bad''
                (RAGManager_init 2 default_args)))"
    by code_simp
  moreover have "\<not> isl (fst (get_rag (failing_construct ''bad'' ''no'') ''good''
                (RAGManager_init 2 default_args)))"
    by code_simp
  ultimately show ?thesis
    using switch_course_probe [of "failing_construct ''bad'' ''no''" "''bad''"
        "RAGManager_init 2 default_args"]
      switch_course_probe [of "failing_construct ''bad'' ''no''" "''good''"
        "RAGManager_init 2 default_args"]
    by simp
qed

subsection \<open>A capacity of zero\<close>

text \<open>
  C10, as the code has it. With \<open>max_preloaded = 0\<close> and an empty pool,
  \<open>initialize_course\<close> and \<open>get_rag\<close> raise \<open>ValueError\<close> (the minimum of an empty
  dictionary) and change nothing, and \<open>switch_course\<close> returns \<open>False\<close>.
  \<open>preload_courses\<close> does not fail: it truncates its list to no course at all, calls
  nothing and returns. No sequence of operations ever admits a course.
\<close>

theorem zero_capacity:
  assumes "max_preloaded s = 0" and "rag_instances s = []" and "course_access_count s = []"
  shows "initialize_course env c kw s = (Inl ValueError, s) \<and>
         get_rag env c s = (Inl ValueError, s) \<and>
         switch_course env c s = (Inr False, emit (LogError (SwitchFailed c ValueError)) s) \<and>
         preload_courses env cs kw s = (Inr (), emit (LogInfo (CoursesPreloaded 0)) s) \<and>
         rag_instances (run ops (RAGManager_init 0 args)) = []"
proof -
  have i: "initialize_course env c kw s = (Inl ValueError, s)" for kw
    using assms by (simp add: empty_pool_raises)
  have g: "get_rag env c s = (Inl ValueError, s)"
    using assms i [of "[]"] by (simp add: get_rag_def)
  have sw: "switch_course env c s = (Inr False, emit (LogError (SwitchFailed c ValueError)) s)"
    using g by (simp add: switch_course_def)
  have p: "preload_courses env cs kw s = (Inr (), emit (LogInfo (CoursesPreloaded 0)) s)"
    using assms(1) by (simp add: preload_courses_def py_slice_to_def)
  have "within_capacity (RAGManager_init 0 args)" by (simp add: within_capacity_def)
  then have "within_capacity (run ops (RAGManager_init 0 args))"
    by (rule run_within_capacity [OF init_invariant])
  then have r: "rag_instances (run ops (RAGManager_init 0 args)) = []"
    by (simp add: within_capacity_def)
  from i g sw p r show ?thesis by simp
qed

theorem zero_capacity_witness:
  "max_preloaded (RAGManager_init 0 default_args) = 0 \<and>
   rag_instances (RAGManager_init 0 default_args) = [] \<and>
   course_access_count (RAGManager_init 0 default_args) = [] \<and>
   get_rag healthy ''A'' (RAGManager_init 0 default_args) =
     (Inl ValueError, RAGManager_init 0 default_args) \<and>
   preload_courses healthy [''A'', ''B''] [] (RAGManager_init 0 default_args) =
     (Inr (), emit (LogInfo (CoursesPreloaded 0)) (RAGManager_init 0 default_args)) \<and>
   rag_instances
     (run [(healthy, Get ''A''), (healthy, Preload [''A'', ''B''] [])]
        (RAGManager_init 0 default_args)) = []"
proof -
  have h1: "max_preloaded (RAGManager_init 0 default_args) = 0" by simp
  have h2: "rag_instances (RAGManager_init 0 default_args) = []" by simp
  have h3: "course_access_count (RAGManager_init 0 default_args) = []" by simp
  from zero_capacity [OF h1 h2 h3, of healthy "''A''" "[]" "[''A'', ''B'']"
      "[(healthy, Get ''A''), (healthy, Preload [''A'', ''B''] [])]" default_args]
    h1 h2 h3
  show ?thesis by blast
qed

text \<open>
  The claim as stated fails for \<open>preload_courses\<close>: \<open>A\<close> is not resident, the capacity
  is 0, and the call returns normally.
\<close>

theorem zero_capacity_preload_counterexample:
  "map_of (rag_instances (RAGManager_init 0 default_args)) ''A'' = None \<and>
   fst (preload_courses healthy [''A''] [] (RAGManager_init 0 default_args)) = Inr ()"
  by code_simp

end
